theory Spec2Isabelle
  imports Complex_Main "HOL-Library.Sublist"
begin

unbundle bit_operations_syntax

section \<open>JavaScript numbers\<close>

text \<open>
  A JavaScript \<open>number\<close> is an IEEE-754 double. The model keeps the special values
  (\<open>NaN\<close>, \<open>Infinity\<close>, \<open>-Infinity\<close>) and idealises the finite ones to the reals:
  no rounding, no overflow of finite results, and a single zero (the sign of zero is
  not tracked, so a division by zero takes the sign of the dividend only). It is used
  for the coordinates of the mouse component, which are sums, differences, products
  and quotients of what the events and the canvas supply.
\<close>

datatype jsnum = Fin real | PInf | NInf | NaN

fun jneg :: "jsnum \<Rightarrow> jsnum" where
  "jneg (Fin a) = Fin (- a)"
| "jneg PInf = NInf"
| "jneg NInf = PInf"
| "jneg NaN = NaN"

fun jadd :: "jsnum \<Rightarrow> jsnum \<Rightarrow> jsnum" where
  "jadd NaN _ = NaN"
| "jadd _ NaN = NaN"
| "jadd (Fin a) (Fin b) = Fin (a + b)"
| "jadd (Fin a) PInf = PInf"
| "jadd (Fin a) NInf = NInf"
| "jadd PInf (Fin b) = PInf"
| "jadd NInf (Fin b) = NInf"
| "jadd PInf PInf = PInf"
| "jadd NInf NInf = NInf"
| "jadd PInf NInf = NaN"
| "jadd NInf PInf = NaN"

definition jsub :: "jsnum \<Rightarrow> jsnum \<Rightarrow> jsnum" where
  "jsub u v = jadd u (jneg v)"

text \<open>The sign of a non-NaN value: \<open>-1\<close>, \<open>0\<close> or \<open>1\<close>.\<close>

fun jsign :: "jsnum \<Rightarrow> int" where
  "jsign (Fin a) = (if a < 0 then - 1 else if a = 0 then 0 else 1)"
| "jsign PInf = 1"
| "jsign NInf = - 1"
| "jsign NaN = 0"

definition inf_of_sign :: "int \<Rightarrow> jsnum" where
  "inf_of_sign k = (if k = 0 then NaN else if 0 < k then PInf else NInf)"

fun jmul :: "jsnum \<Rightarrow> jsnum \<Rightarrow> jsnum" where
  "jmul NaN _ = NaN"
| "jmul _ NaN = NaN"
| "jmul (Fin a) (Fin b) = Fin (a * b)"
| "jmul u v = inf_of_sign (jsign u * jsign v)"

fun jdiv :: "jsnum \<Rightarrow> jsnum \<Rightarrow> jsnum" where
  "jdiv NaN _ = NaN"
| "jdiv _ NaN = NaN"
| "jdiv (Fin a) (Fin b) = (if b = 0 then inf_of_sign (jsign (Fin a)) else Fin (a / b))"
| "jdiv (Fin a) v = Fin 0"
| "jdiv u (Fin b) = (if b < 0 then jneg u else u)"
| "jdiv u v = NaN"

section \<open>Point\<close>

text \<open>
  The class \<open>Point\<close> (imported as \<open>Vector\<close> by the mouse component): two numbers.
  The fields \<open>x\<close> and \<open>y\<close> are named \<open>px\<close> and \<open>py\<close> here. A mutating method
  returns the receiver's new value. Only the two methods which the mouse component
  calls are modelled. The polar accessors (\<open>magnitude\<close>, \<open>angle\<close>, \<open>normalize\<close>)
  are not: what they return is decided by the rounding, overflow and underflow of
  doubles, by the sign of zero, and by \<open>Math.pow\<close>, \<open>Math.atan2\<close>, \<open>Math.cos\<close> and
  \<open>Math.sin\<close>, which the language leaves to the implementation to approximate.
\<close>

datatype point = Point (px: jsnum) (py: jsnum)

definition mutateInto :: "point \<Rightarrow> point \<Rightarrow> point" where
  "mutateInto this other = Point (px other) (py other)"

text \<open>\<open>subtractMutate\<close> with a Point operand.\<close>

definition subtractMutate :: "point \<Rightarrow> point \<Rightarrow> point" where
  "subtractMutate this other = Point (jsub (px this) (px other)) (jsub (py this) (py other))"

section \<open>The low-level mouse component\<close>

subsection \<open>Data\<close>

text \<open>
  Modelled from the spec: the 2D affine matrix with \<open>transformPoint\<close> and \<open>inverse\<close>
  (the class behind \<open>transforms.matrixForWorldPosition()\<close> is not among the sources).
  The six entries are those of a 3x3 homogeneous matrix whose last row is \<open>0 0 1\<close>; a
  matrix that has no inverse inverts to the all-\<open>NaN\<close> matrix.
\<close>

datatype matrix = Matrix (m11: jsnum) (m12: jsnum) (m21: jsnum) (m22: jsnum) (m41: jsnum) (m42: jsnum)

definition identity_matrix :: matrix where
  "identity_matrix = Matrix (Fin 1) (Fin 0) (Fin 0) (Fin 1) (Fin 0) (Fin 0)"

definition transformPoint :: "matrix \<Rightarrow> point \<Rightarrow> point" where
  "transformPoint m p =
     Point (jadd (jadd (jmul (m11 m) (px p)) (jmul (m21 m) (py p))) (m41 m))
           (jadd (jadd (jmul (m12 m) (px p)) (jmul (m22 m) (py p))) (m42 m))"

definition inverse_matrix :: "matrix \<Rightarrow> matrix" where
  "inverse_matrix m =
     (let det = jsub (jmul (m11 m) (m22 m)) (jmul (m12 m) (m21 m))
      in if (case det of Fin r \<Rightarrow> r \<noteq> 0 | _ \<Rightarrow> False)
         then Matrix (jdiv (m22 m) det) (jneg (jdiv (m12 m) det))
                     (jneg (jdiv (m21 m) det)) (jdiv (m11 m) det)
                     (jdiv (jsub (jmul (m21 m) (m42 m)) (jmul (m22 m) (m41 m))) det)
                     (jdiv (jsub (jmul (m12 m) (m41 m)) (jmul (m11 m) (m42 m))) det)
         else Matrix NaN NaN NaN NaN NaN NaN)"

text \<open>The fields of a DOM \<open>MouseEvent\<close> and \<open>TouchEvent\<close> that the handlers read.\<close>

datatype mouse_event =
  MouseEvent (clientX: jsnum) (clientY: jsnum) (buttons: nat) (button: int)

datatype touch = Touch (touch_clientX: jsnum) (touch_clientY: jsnum)

datatype touch_event = TouchEvent (touches: "touch list") (changedTouches: "touch list")

datatype raw =
    MouseMove mouse_event
  | MouseDown mouse_event
  | MouseUp mouse_event
  | MouseOut mouse_event
  | MouseOver mouse_event
  | TouchStart touch_event
  | TouchMove touch_event
  | TouchEnd touch_event

text \<open>The object \<open>updateEvent\<close> destructures; \<open>buttons\<close> and \<open>button\<close> may be absent.\<close>

datatype upd_args =
  UpdArgs (arg_clientX: jsnum) (arg_clientY: jsnum) (arg_buttons: "nat option") (arg_button: "int option")

datatype buttons_state =
  Buttons (left: bool) (right: bool) (middle: bool) (mouse4: bool) (mouse5: bool)

datatype HexMouseEvent = HexMouseEvent (pos: point) (delta: point) (hex_buttons: buttons_state)

text \<open>
  The five callback sets of \<open>storage\<close>, the three pending slots, and a pending closure:
  every closure the handlers build empties the slot it sits in, calls \<open>updateEvent\<close> on
  the captured arguments and triggers one callback set.
\<close>

datatype cbset = MoveCallbacks | DownCallbacks | UpCallbacks | OutCallbacks | OverCallbacks

datatype slot = SlotMove | SlotDown | SlotUp

datatype closure = Closure (args: upd_args) (triggers: cbset)

text \<open>
  What a registered callback does is not part of the component. A listener here has an
  identity, a list of raw events that it dispatches on the canvas synchronously while
  it runs (which re-enters the handlers below), and then returns or throws. A
  first-click handler has an identity and returns or throws. The entries of a callback
  set are the functions as stored, that is, after \<open>useCallbackAsCurrent\<close> has wrapped
  them. A listener that registers further listeners while it runs is not modelled.
\<close>

datatype listener = Listener (lid: nat) (emits: "raw list") (throws: bool)

datatype fc_handler = FcHandler (fid: nat) (fthrows: bool)

datatype exn = ListenerExn nat | HandlerExn nat

datatype outcome = Returned | Threw exn

text \<open>
  The trace of what happened, kept beside the state and read by nothing:
  a handler stored a closure in a slot; a closure ran (the slot it emptied, and the
  event snapshot it computed); a listener was called with the snapshot; a first-click
  handler was called.
\<close>

datatype entry =
    Sched slot closure
  | Fire slot closure HexMouseEvent
  | Call cbset nat HexMouseEvent
  | FirstClick nat

text \<open>
  The module-level variables, the variables of one component instance, what the
  component reads from the canvas and the entity transforms, and the trace.
\<close>

record mouse =
  firstClickHasHappened :: bool
  pendingFirstClickHandlers :: "fc_handler list"
  moveCallbacks :: "listener list"
  downCallbacks :: "listener list"
  upCallbacks :: "listener list"
  outCallbacks :: "listener list"
  overCallbacks :: "listener list"
  lastPos :: point
  event :: HexMouseEvent
  pendingMove :: "closure option"
  pendingDown :: "closure option"
  pendingUp :: "closure option"
  isTouching :: bool
  rect_left :: jsnum
  rect_top :: jsnum
  rect_width :: jsnum
  rect_height :: jsnum
  canvas_width :: jsnum
  canvas_height :: jsnum
  matrixForWorldPosition :: matrix
  log :: "entry list"

subsection \<open>Registration\<close>

text \<open>
  \<open>useFirstClick\<close>: push the handler; the object it returns has a getter for the flag,
  whose value at the time of the call is returned here.
\<close>

definition useFirstClick :: "fc_handler \<Rightarrow> mouse \<Rightarrow> bool \<times> mouse" where
  "useFirstClick handler s =
     (let s' = s\<lparr>pendingFirstClickHandlers := pendingFirstClickHandlers s @ [handler]\<rparr>
      in (firstClickHasHappened s', s'))"

text \<open>\<open>Set.prototype.add\<close>: insertion order, an element already present is not added.\<close>

definition set_add :: "'a \<Rightarrow> 'a list \<Rightarrow> 'a list" where
  "set_add v vs = (if v \<in> set vs then vs else vs @ [v])"

definition onMouseMove :: "listener \<Rightarrow> mouse \<Rightarrow> mouse" where
  "onMouseMove callback s = s\<lparr>moveCallbacks := set_add callback (moveCallbacks s)\<rparr>"

definition onMouseDown :: "listener \<Rightarrow> mouse \<Rightarrow> mouse" where
  "onMouseDown callback s = s\<lparr>downCallbacks := set_add callback (downCallbacks s)\<rparr>"

definition onMouseUp :: "listener \<Rightarrow> mouse \<Rightarrow> mouse" where
  "onMouseUp callback s = s\<lparr>upCallbacks := set_add callback (upCallbacks s)\<rparr>"

definition onCanvasLeave :: "listener \<Rightarrow> mouse \<Rightarrow> mouse" where
  "onCanvasLeave callback s = s\<lparr>outCallbacks := set_add callback (outCallbacks s)\<rparr>"

definition onCanvasEnter :: "listener \<Rightarrow> mouse \<Rightarrow> mouse" where
  "onCanvasEnter callback s = s\<lparr>overCallbacks := set_add callback (overCallbacks s)\<rparr>"

subsection \<open>Coordinates and the event snapshot\<close>

definition translatePos :: "mouse \<Rightarrow> jsnum \<Rightarrow> jsnum \<Rightarrow> point" where
  "translatePos s cx cy =
     (let scaleX = jdiv (rect_width s) (canvas_width s);
          scaleY = jdiv (rect_height s) (canvas_height s);
          x = jdiv (jsub cx (rect_left s)) scaleX;
          y = jdiv (jsub cy (rect_top s)) scaleY;
          untransformedPoint = Point x y
      in transformPoint (inverse_matrix (matrixForWorldPosition s)) untransformedPoint)"

text \<open>
  \<open>updateEvent\<close>. \<open>buttons\<close> defaults to \<open>0\<close>; \<open>button === n\<close> is false when
  \<open>button\<close> is absent. \<open>Boolean(buttons & k)\<close> is \<open>buttons AND k \<noteq> 0\<close>.
\<close>

definition buttons_or_default :: "upd_args \<Rightarrow> nat" where
  "buttons_or_default a = (case arg_buttons a of None \<Rightarrow> 0 | Some b \<Rightarrow> b)"

definition updateEvent :: "upd_args \<Rightarrow> mouse \<Rightarrow> mouse" where
  "updateEvent a s =
     (let bs = buttons_or_default a;
          pos' = translatePos s (arg_clientX a) (arg_clientY a);
          delta' = subtractMutate (mutateInto (delta (event s)) pos') (lastPos s);
          lastPos' = mutateInto (lastPos s) pos'
      in s\<lparr>event := HexMouseEvent pos' delta'
               (Buttons (bs AND 1 \<noteq> 0 \<or> arg_button a = Some 0)
                        (bs AND 2 \<noteq> 0 \<or> arg_button a = Some 2)
                        (bs AND 4 \<noteq> 0 \<or> arg_button a = Some 1)
                        (bs AND 8 \<noteq> 0 \<or> arg_button a = Some 3)
                        (bs AND 16 \<noteq> 0 \<or> arg_button a = Some 4)),
           lastPos := lastPos'\<rparr>)"

subsection \<open>Raw event handlers\<close>

text \<open>
  A raw event here is a call of the handler that \<open>bindListeners\<close> attached for its type;
  attaching and detaching are not modelled, nor is \<open>ev.preventDefault()\<close>, which writes
  to the DOM event only. A handler returns its outcome and the new state.
\<close>

definition get_slot :: "slot \<Rightarrow> mouse \<Rightarrow> closure option" where
  "get_slot sl s = (case sl of SlotMove \<Rightarrow> pendingMove s | SlotDown \<Rightarrow> pendingDown s | SlotUp \<Rightarrow> pendingUp s)"

definition set_slot :: "slot \<Rightarrow> closure option \<Rightarrow> mouse \<Rightarrow> mouse" where
  "set_slot sl v s =
     (case sl of SlotMove \<Rightarrow> s\<lparr>pendingMove := v\<rparr>
               | SlotDown \<Rightarrow> s\<lparr>pendingDown := v\<rparr>
               | SlotUp \<Rightarrow> s\<lparr>pendingUp := v\<rparr>)"

text \<open>A handler's assignment \<open>pendingX = () => {...}\<close>, with its trace entry.\<close>

definition schedule :: "slot \<Rightarrow> closure \<Rightarrow> mouse \<Rightarrow> mouse" where
  "schedule sl c s = (set_slot sl (Some c) s)\<lparr>log := log s @ [Sched sl c]\<rparr>"

text \<open>\<open>pendingFirstClickHandlers.forEach\<close>: in order, stopped by the first throw.\<close>

fun forEach_handlers :: "fc_handler list \<Rightarrow> mouse \<Rightarrow> outcome \<times> mouse" where
  "forEach_handlers [] s = (Returned, s)"
| "forEach_handlers (h # hs) s =
     (let s1 = s\<lparr>log := log s @ [FirstClick (fid h)]\<rparr>
      in if fthrows h then (Threw (HandlerExn (fid h)), s1) else forEach_handlers hs s1)"

text \<open>
  The block \<open>if (!firstClickHasHappened) {...}\<close>, which \<open>handleMouseDown\<close> and
  \<open>handleTouchStart\<close> both contain.
\<close>

definition firstClick :: "mouse \<Rightarrow> outcome \<times> mouse" where
  "firstClick s =
     (if \<not> firstClickHasHappened s then
        (let s1 = s\<lparr>firstClickHasHappened := True\<rparr>
         in case forEach_handlers (pendingFirstClickHandlers s1) s1 of
              (Threw e, s2) \<Rightarrow> (Threw e, s2)
            | (Returned, s2) \<Rightarrow> (Returned, s2\<lparr>pendingFirstClickHandlers := []\<rparr>))
      else (Returned, s))"

definition handleMouseMove :: "mouse_event \<Rightarrow> mouse \<Rightarrow> outcome \<times> mouse" where
  "handleMouseMove ev s =
     (Returned, schedule SlotMove
        (Closure (UpdArgs (clientX ev) (clientY ev) (Some (buttons ev)) None) MoveCallbacks) s)"

definition handleMouseDown :: "mouse_event \<Rightarrow> mouse \<Rightarrow> outcome \<times> mouse" where
  "handleMouseDown ev s =
     (case firstClick s of
        (Threw e, s1) \<Rightarrow> (Threw e, s1)
      | (Returned, s1) \<Rightarrow>
          (Returned, schedule SlotDown
             (Closure (UpdArgs (clientX ev) (clientY ev) None (Some (button ev))) DownCallbacks) s1))"

definition handleMouseUp :: "mouse_event \<Rightarrow> mouse \<Rightarrow> outcome \<times> mouse" where
  "handleMouseUp ev s =
     (Returned, schedule SlotUp
        (Closure (UpdArgs (clientX ev) (clientY ev) None (Some (button ev))) UpCallbacks) s)"

definition handleMouseOut :: "mouse_event \<Rightarrow> mouse \<Rightarrow> outcome \<times> mouse" where
  "handleMouseOut ev s =
     (Returned, schedule SlotMove
        (Closure (UpdArgs (clientX ev) (clientY ev) (Some (buttons ev)) None) OutCallbacks) s)"

definition handleMouseOver :: "mouse_event \<Rightarrow> mouse \<Rightarrow> outcome \<times> mouse" where
  "handleMouseOver ev s =
     (Returned, schedule SlotMove
        (Closure (UpdArgs (clientX ev) (clientY ev) (Some (buttons ev)) None) OverCallbacks) s)"

definition handleTouchStart :: "touch_event \<Rightarrow> mouse \<Rightarrow> outcome \<times> mouse" where
  "handleTouchStart ev s =
     (if isTouching s then (Returned, s)
      else case firstClick s of
        (Threw e, s1) \<Rightarrow> (Threw e, s1)
      | (Returned, s1) \<Rightarrow>
          (case touches ev of
             [] \<Rightarrow> (Returned, s1)
           | t # _ \<Rightarrow>
               (Returned, (schedule SlotDown
                  (Closure (UpdArgs (touch_clientX t) (touch_clientY t) None (Some 0)) DownCallbacks) s1)
                  \<lparr>isTouching := True\<rparr>)))"

definition handleTouchMove :: "touch_event \<Rightarrow> mouse \<Rightarrow> outcome \<times> mouse" where
  "handleTouchMove ev s =
     (case touches ev of
        [] \<Rightarrow> (Returned, s)
      | t # _ \<Rightarrow>
          (Returned, schedule SlotMove
             (Closure (UpdArgs (touch_clientX t) (touch_clientY t) None (Some 0)) MoveCallbacks) s))"

definition handleTouchEnd :: "touch_event \<Rightarrow> mouse \<Rightarrow> outcome \<times> mouse" where
  "handleTouchEnd ev s =
     (if \<not> isTouching s then (Returned, s)
      else case changedTouches ev of
        [] \<Rightarrow> (Returned, s)
      | t # _ \<Rightarrow>
          (Returned, (schedule SlotUp
             (Closure (UpdArgs (touch_clientX t) (touch_clientY t) None (Some 0)) UpCallbacks) s)
             \<lparr>isTouching := False\<rparr>))"

text \<open>The canvas calls the handler bound to the event's type.\<close>

fun handle :: "raw \<Rightarrow> mouse \<Rightarrow> outcome \<times> mouse" where
  "handle (MouseMove ev) s = handleMouseMove ev s"
| "handle (MouseDown ev) s = handleMouseDown ev s"
| "handle (MouseUp ev) s = handleMouseUp ev s"
| "handle (MouseOut ev) s = handleMouseOut ev s"
| "handle (MouseOver ev) s = handleMouseOver ev s"
| "handle (TouchStart ev) s = handleTouchStart ev s"
| "handle (TouchMove ev) s = handleTouchMove ev s"
| "handle (TouchEnd ev) s = handleTouchEnd ev s"

subsection \<open>Dispatch\<close>

text \<open>
  Raw events delivered one after the other, by the browser or by a listener's
  synchronous dispatches: an exception that leaves a handler is reported by the
  browser and does not reach the code that dispatched the event.
\<close>

fun dispatchEvents :: "raw list \<Rightarrow> mouse \<Rightarrow> mouse" where
  "dispatchEvents [] s = s"
| "dispatchEvents (r # rs) s = dispatchEvents rs (snd (handle r s))"

definition call_listener :: "cbset \<Rightarrow> listener \<Rightarrow> mouse \<Rightarrow> outcome \<times> mouse" where
  "call_listener cs l s =
     (let s1 = s\<lparr>log := log s @ [Call cs (lid l) (event s)]\<rparr>;
          s2 = dispatchEvents (emits l) s1
      in (if throws l then Threw (ListenerExn (lid l)) else Returned, s2))"

text \<open>\<open>callbacks.forEach((callback) => callback(event))\<close>.\<close>

fun forEach_callbacks :: "cbset \<Rightarrow> listener list \<Rightarrow> mouse \<Rightarrow> outcome \<times> mouse" where
  "forEach_callbacks cs [] s = (Returned, s)"
| "forEach_callbacks cs (l # ls) s =
     (case call_listener cs l s of
        (Threw e, s1) \<Rightarrow> (Threw e, s1)
      | (Returned, s1) \<Rightarrow> forEach_callbacks cs ls s1)"

definition callbacks_of :: "cbset \<Rightarrow> mouse \<Rightarrow> listener list" where
  "callbacks_of cs s =
     (case cs of MoveCallbacks \<Rightarrow> moveCallbacks s | DownCallbacks \<Rightarrow> downCallbacks s
               | UpCallbacks \<Rightarrow> upCallbacks s | OutCallbacks \<Rightarrow> outCallbacks s
               | OverCallbacks \<Rightarrow> overCallbacks s)"

definition triggerCallbacks :: "cbset \<Rightarrow> mouse \<Rightarrow> outcome \<times> mouse" where
  "triggerCallbacks cs s = forEach_callbacks cs (callbacks_of cs s) s"

text \<open>
  Running the closure found in a slot: \<open>pendingX = null; updateEvent({...});
  triggerCallbacks(storage.cCallbacks)\<close>.
\<close>

definition fire :: "slot \<Rightarrow> closure \<Rightarrow> mouse \<Rightarrow> outcome \<times> mouse" where
  "fire sl c s =
     (let s1 = set_slot sl None s;
          s2 = updateEvent (args c) s1;
          s3 = s2\<lparr>log := log s2 @ [Fire sl c (event s2)]\<rparr>
      in triggerCallbacks (triggers c) s3)"

text \<open>\<open>if (pendingX) pendingX();\<close>\<close>

definition flush_slot :: "slot \<Rightarrow> mouse \<Rightarrow> outcome \<times> mouse" where
  "flush_slot sl s = (case get_slot sl s of None \<Rightarrow> (Returned, s) | Some c \<Rightarrow> fire sl c s)"

text \<open>The callback given to \<open>useUpdate\<close>, run once per tick.\<close>

definition useUpdate :: "mouse \<Rightarrow> outcome \<times> mouse" where
  "useUpdate s =
     (case flush_slot SlotMove s of
        (Threw e, s1) \<Rightarrow> (Threw e, s1)
      | (Returned, s1) \<Rightarrow>
          (case flush_slot SlotDown s1 of
             (Threw e, s2) \<Rightarrow> (Threw e, s2)
           | (Returned, s2) \<Rightarrow> flush_slot SlotUp s2))"

subsection \<open>Histories\<close>

text \<open>
  What can happen to the process and the component, one step at a time: the browser
  delivers a raw event, the frame's update tick runs, a first-click handler or a
  listener is registered.
\<close>

datatype step =
    Raw raw
  | Tick
  | UseFirstClick fc_handler
  | Register cbset listener

fun register :: "cbset \<Rightarrow> listener \<Rightarrow> mouse \<Rightarrow> mouse" where
  "register MoveCallbacks l s = onMouseMove l s"
| "register DownCallbacks l s = onMouseDown l s"
| "register UpCallbacks l s = onMouseUp l s"
| "register OutCallbacks l s = onCanvasLeave l s"
| "register OverCallbacks l s = onCanvasEnter l s"

fun do_step :: "step \<Rightarrow> mouse \<Rightarrow> mouse" where
  "do_step (Raw r) s = snd (handle r s)"
| "do_step Tick s = snd (useUpdate s)"
| "do_step (UseFirstClick h) s = snd (useFirstClick h s)"
| "do_step (Register cs l) s = register cs l s"

fun run :: "step list \<Rightarrow> mouse \<Rightarrow> mouse" where
  "run [] s = s"
| "run (x # xs) s = run xs (do_step x s)"

text \<open>The first-click handlers which a history registers, in order.\<close>

fun registered :: "step list \<Rightarrow> fc_handler list" where
  "registered [] = []"
| "registered (UseFirstClick h # xs) = h # registered xs"
| "registered (_ # xs) = registered xs"

subsection \<open>Reading the trace\<close>

text \<open>The entries added to the trace between two states.\<close>

definition trace_since :: "mouse \<Rightarrow> mouse \<Rightarrow> entry list" where
  "trace_since s s' = drop (length (log s)) (log s')"

text \<open>The closures that ran, the listeners that were called, the first-click handlers that were called.\<close>

fun fires :: "entry list \<Rightarrow> (slot \<times> closure \<times> HexMouseEvent) list" where
  "fires [] = []"
| "fires (Fire sl c ev # xs) = (sl, c, ev) # fires xs"
| "fires (_ # xs) = fires xs"

fun calls :: "entry list \<Rightarrow> (cbset \<times> nat) list" where
  "calls [] = []"
| "calls (Call cs n ev # xs) = (cs, n) # calls xs"
| "calls (_ # xs) = calls xs"

fun first_clicks :: "entry list \<Rightarrow> nat list" where
  "first_clicks [] = []"
| "first_clicks (FirstClick n # xs) = n # first_clicks xs"
| "first_clicks (_ # xs) = first_clicks xs"

text \<open>
  What a slot holds after a stretch of the trace, given what it held before: a closure
  that ran emptied its slot, a handler's assignment filled it.
\<close>

fun replay :: "slot \<Rightarrow> entry list \<Rightarrow> closure option \<Rightarrow> closure option" where
  "replay sl [] v = v"
| "replay sl (Sched sl' c # xs) v = replay sl xs (if sl' = sl then Some c else v)"
| "replay sl (Fire sl' c ev # xs) v = replay sl xs (if sl' = sl then None else v)"
| "replay sl (_ # xs) v = replay sl xs v"

text \<open>
  Every listener call in a stretch of the trace comes after a closure ran, is for the
  callback set which the closure that ran last triggers, and passes the snapshot which
  that closure computed.
\<close>

fun passes_ok :: "(closure \<times> HexMouseEvent) option \<Rightarrow> entry list \<Rightarrow> bool" where
  "passes_ok cur [] = True"
| "passes_ok cur (Fire sl c ev # xs) = passes_ok (Some (c, ev)) xs"
| "passes_ok cur (Call cs n ev # xs) =
     (case cur of None \<Rightarrow> False | Some (c, ev') \<Rightarrow> triggers c = cs \<and> ev' = ev \<and> passes_ok cur xs)"
| "passes_ok cur (_ # xs) = passes_ok cur xs"

text \<open>
  A \<open>forEach\<close> over callbacks stops at the first that throws: the elements it calls
  (up to and including the first that satisfies \<open>P\<close>), and how it ends.
\<close>

fun through_first :: "('a \<Rightarrow> bool) \<Rightarrow> 'a list \<Rightarrow> 'a list" where
  "through_first P [] = []"
| "through_first P (v # vs) = (if P v then [v] else v # through_first P vs)"

fun first_throw :: "listener list \<Rightarrow> outcome" where
  "first_throw [] = Returned"
| "first_throw (l # ls) = (if throws l then Threw (ListenerExn (lid l)) else first_throw ls)"

fun first_fthrow :: "fc_handler list \<Rightarrow> outcome" where
  "first_fthrow [] = Returned"
| "first_fthrow (h # hs) = (if fthrows h then Threw (HandlerExn (fid h)) else first_fthrow hs)"

text \<open>The closure which the handler of a mousemove, mouseout or mouseover event stores.\<close>

fun move_closure :: "raw \<Rightarrow> closure option" where
  "move_closure (MouseMove ev) =
     Some (Closure (UpdArgs (clientX ev) (clientY ev) (Some (buttons ev)) None) MoveCallbacks)"
| "move_closure (MouseOut ev) =
     Some (Closure (UpdArgs (clientX ev) (clientY ev) (Some (buttons ev)) None) OutCallbacks)"
| "move_closure (MouseOver ev) =
     Some (Closure (UpdArgs (clientX ev) (clientY ev) (Some (buttons ev)) None) OverCallbacks)"
| "move_closure _ = None"

subsection \<open>Invariants of a step\<close>

text \<open>What no handler and no closure changes: the callback sets, the canvas, the transform.\<close>

definition frame :: "mouse \<Rightarrow> mouse \<Rightarrow> bool" where
  "frame s s' \<longleftrightarrow>
     moveCallbacks s' = moveCallbacks s \<and> downCallbacks s' = downCallbacks s \<and>
     upCallbacks s' = upCallbacks s \<and> outCallbacks s' = outCallbacks s \<and>
     overCallbacks s' = overCallbacks s \<and>
     rect_left s' = rect_left s \<and> rect_top s' = rect_top s \<and>
     rect_width s' = rect_width s \<and> rect_height s' = rect_height s \<and>
     canvas_width s' = canvas_width s \<and> canvas_height s' = canvas_height s \<and>
     matrixForWorldPosition s' = matrixForWorldPosition s"

text \<open>
  A step from \<open>s\<close> to \<open>s'\<close> that appended \<open>xs\<close> to the trace: the slots of \<open>s'\<close> are
  those of \<open>s\<close> replayed over \<open>xs\<close>.
\<close>

definition extends :: "mouse \<Rightarrow> entry list \<Rightarrow> mouse \<Rightarrow> bool" where
  "extends s xs s' \<longleftrightarrow>
     log s' = log s @ xs \<and> (\<forall>sl. get_slot sl s' = replay sl xs (get_slot sl s)) \<and> frame s s'"

text \<open>
  Once the latch is set it stays set, and no first-click handler is called or removed;
  and a component that is touching has seen the latch set.
\<close>

definition latch_ok :: "mouse \<Rightarrow> entry list \<Rightarrow> mouse \<Rightarrow> bool" where
  "latch_ok s xs s' \<longleftrightarrow>
     (firstClickHasHappened s \<longrightarrow>
        firstClickHasHappened s' \<and> first_clicks xs = [] \<and>
        (\<exists>hs. pendingFirstClickHandlers s' = pendingFirstClickHandlers s @ hs)) \<and>
     ((isTouching s \<longrightarrow> firstClickHasHappened s) \<longrightarrow>
        (isTouching s' \<longrightarrow> firstClickHasHappened s'))"

text \<open>
  A step of a handler or of the flush: besides the above, as long as the latch is unset
  no first-click handler has been called and the queue is as it was.
\<close>

definition step_ok :: "mouse \<Rightarrow> entry list \<Rightarrow> mouse \<Rightarrow> bool" where
  "step_ok s xs s' \<longleftrightarrow>
     extends s xs s' \<and> latch_ok s xs s' \<and>
     (\<not> firstClickHasHappened s' \<longrightarrow>
        first_clicks xs = [] \<and> pendingFirstClickHandlers s' = pendingFirstClickHandlers s)"

text \<open>A step in which no closure runs and no listener is called, as every raw handler is.\<close>

definition quiet_step :: "mouse \<Rightarrow> entry list \<Rightarrow> mouse \<Rightarrow> bool" where
  "quiet_step s xs s' \<longleftrightarrow>
     step_ok s xs s' \<and> fires xs = [] \<and> calls xs = [] \<and>
     event s' = event s \<and> lastPos s' = lastPos s"

text \<open>
  A step inside the listener pass of the callback set \<open>cs\<close>: no closure runs, the
  snapshot stays, and every listener called is one of the pass.
\<close>

definition pass_step :: "cbset \<Rightarrow> mouse \<Rightarrow> entry list \<Rightarrow> mouse \<Rightarrow> bool" where
  "pass_step cs s xs s' \<longleftrightarrow>
     step_ok s xs s' \<and> fires xs = [] \<and> event s' = event s \<and> lastPos s' = lastPos s \<and>
     (\<forall>c. triggers c = cs \<longrightarrow> passes_ok (Some (c, event s)) xs)"

text \<open>The down slot holds nothing, or a closure for the down listeners.\<close>

definition down_ok :: "mouse \<Rightarrow> bool" where
  "down_ok s \<longleftrightarrow> (\<forall>c. pendingDown s = Some c \<longrightarrow> triggers c = DownCallbacks)"

text \<open>
  The state in which the listeners of a closure start: the slot emptied, the snapshot
  updated, the run recorded in the trace.
\<close>

definition armed :: "slot \<Rightarrow> closure \<Rightarrow> mouse \<Rightarrow> mouse" where
  "armed sl c s =
     (let s2 = updateEvent (args c) (set_slot sl None s)
      in s2\<lparr>log := log s2 @ [Fire sl c (event s2)]\<rparr>)"

text \<open>What a flush of one slot fires: nothing, or the closure found there with the snapshot it computes.\<close>

definition flush_fires :: "slot \<Rightarrow> mouse \<Rightarrow> (slot \<times> closure \<times> HexMouseEvent) list" where
  "flush_fires sl s =
     (case get_slot sl s of None \<Rightarrow> []
      | Some c \<Rightarrow> [(sl, c, event (updateEvent (args c) s))])"

text \<open>
  Three raw events of one tick: a move to (10, 10), a move to (20, 20), and a press of
  button 0, whatever else the events carry.
\<close>

definition burst :: "nat \<Rightarrow> int \<Rightarrow> nat \<Rightarrow> int \<Rightarrow> jsnum \<Rightarrow> jsnum \<Rightarrow> nat \<Rightarrow> raw list" where
  "burst b1 k1 b2 k2 dx dy b3 =
     [MouseMove (MouseEvent (Fin 10) (Fin 10) b1 k1),
      MouseMove (MouseEvent (Fin 20) (Fin 20) b2 k2),
      MouseDown (MouseEvent dx dy b3 0)]"

subsection \<open>Example states\<close>

text \<open>
  The process and a component as they start: the initial values of the module-level
  and component variables, on a 300 by 150 canvas displayed unscaled at the viewport's
  origin, for an entity whose world transform is the identity.
\<close>

definition initial :: mouse where
  "initial =
     \<lparr>firstClickHasHappened = False, pendingFirstClickHandlers = [],
      moveCallbacks = [], downCallbacks = [], upCallbacks = [], outCallbacks = [],
      overCallbacks = [],
      lastPos = Point (Fin 0) (Fin 0),
      event = HexMouseEvent (Point (Fin 0) (Fin 0)) (Point (Fin 0) (Fin 0))
                (Buttons False False False False False),
      pendingMove = None, pendingDown = None, pendingUp = None,
      isTouching = False,
      rect_left = Fin 0, rect_top = Fin 0, rect_width = Fin 300, rect_height = Fin 150,
      canvas_width = Fin 300, canvas_height = Fin 150,
      matrixForWorldPosition = identity_matrix,
      log = []\<rparr>"

text \<open>A component with one listener per callback set, which has seen the pointer at (3, 4).\<close>

definition watched :: mouse where
  "watched = initial
     \<lparr>pendingFirstClickHandlers := [FcHandler 9 False],
      moveCallbacks := [Listener 1 [] False],
      downCallbacks := [Listener 2 [] False],
      upCallbacks := [Listener 3 [] False],
      lastPos := Point (Fin 3) (Fin 4)\<rparr>"


text \<open>
  A component whose first move listener throws, with a move and a down pending.
\<close>

definition faulty :: mouse where
  "faulty = initial
     \<lparr>moveCallbacks := [Listener 1 [] True, Listener 2 [] False],
      downCallbacks := [Listener 3 [] False],
      pendingMove := Some (Closure (UpdArgs (Fin 1) (Fin 2) (Some 0) None) MoveCallbacks),
      pendingDown := Some (Closure (UpdArgs (Fin 1) (Fin 2) None (Some 0)) DownCallbacks)\<rparr>"

text \<open>A component whose only move listener throws.\<close>

definition brittle :: mouse where
  "brittle = initial
     \<lparr>moveCallbacks := [Listener 1 [] True],
      downCallbacks := [Listener 2 [] False]\<rparr>"

text \<open>
  A process in which two first-click handlers were registered, the first of which
  throws, and a component with one move and one down listener.
\<close>

definition hasty :: mouse where
  "hasty = run [UseFirstClick (FcHandler 1 True), UseFirstClick (FcHandler 2 False)]
     (initial\<lparr>moveCallbacks := [Listener 1 [] False], downCallbacks := [Listener 2 [] False]\<rparr>)"


text \<open>A component in the middle of a touch.\<close>

definition touching :: mouse where
  "touching = initial\<lparr>firstClickHasHappened := True, isTouching := True\<rparr>"

text \<open>A raw event that sets the latch: a mousedown or a touchstart.\<close>

fun is_click :: "raw \<Rightarrow> bool" where
  "is_click (MouseDown ev) = True"
| "is_click (TouchStart ev) = True"
| "is_click _ = False"

section \<open>Properties of the mouse component\<close>

lemma bit_test: "((b::nat) AND 2 ^ n \<noteq> 0) = bit b n"
  using and_exp_eq_0_iff_not_bit[of b n] by simp

text \<open>
  Claim C10. For every raw update, with or without a \<open>buttons\<close> bitmask and with or
  without a \<open>button\<close> index, each button of the snapshot is set to (the bitmask has the
  button's bit) or (the index is the button's index): bits 0 to 4 are left, right,
  middle, mouse4, mouse5 and indices 0 to 4 are left, middle, right, mouse4, mouse5.
  The bitmask \<open>0b00011\<close> alone yields left and right, and nothing else.
\<close>

theorem C10_button_decoding:
  "left (hex_buttons (event (updateEvent a s))) = (bit (buttons_or_default a) 0 \<or> arg_button a = Some 0) \<and>
   right (hex_buttons (event (updateEvent a s))) = (bit (buttons_or_default a) 1 \<or> arg_button a = Some 2) \<and>
   middle (hex_buttons (event (updateEvent a s))) = (bit (buttons_or_default a) 2 \<or> arg_button a = Some 1) \<and>
   mouse4 (hex_buttons (event (updateEvent a s))) = (bit (buttons_or_default a) 3 \<or> arg_button a = Some 3) \<and>
   mouse5 (hex_buttons (event (updateEvent a s))) = (bit (buttons_or_default a) 4 \<or> arg_button a = Some 4) \<and>
   buttons_or_default (UpdArgs cx cy (Some b) k) = b \<and>
   buttons_or_default (UpdArgs cx cy None k) = 0 \<and>
   hex_buttons (event (updateEvent (UpdArgs cx cy (Some 3) None) s)) = Buttons True True False False False"
proof -
  have general:
    "hex_buttons (event (updateEvent a s)) =
       Buttons (bit (buttons_or_default a) 0 \<or> arg_button a = Some 0)
               (bit (buttons_or_default a) 1 \<or> arg_button a = Some 2)
               (bit (buttons_or_default a) 2 \<or> arg_button a = Some 1)
               (bit (buttons_or_default a) 3 \<or> arg_button a = Some 3)
               (bit (buttons_or_default a) 4 \<or> arg_button a = Some 4)"
    using bit_test[of _ 0] bit_test[of _ 1] bit_test[of _ 2] bit_test[of _ 3] bit_test[of _ 4]
    by (simp add: updateEvent_def Let_def)
  have defaults:
    "buttons_or_default (UpdArgs cx cy (Some b) k) = b" "buttons_or_default (UpdArgs cx cy None k) = 0"
    by (simp_all add: buttons_or_default_def)
  have three:
    "hex_buttons (event (updateEvent (UpdArgs cx cy (Some 3) None) s)) = Buttons True True False False False"
    by (simp add: updateEvent_def buttons_or_default_def Let_def)
  show ?thesis
    by (simp only: general defaults three buttons_state.sel simp_thms)
qed

theorem C10_button_decoding_witness:
  "left (hex_buttons (event (updateEvent (UpdArgs (Fin 1) (Fin 2) (Some 3) (Some 1)) initial))) \<and>
   right (hex_buttons (event (updateEvent (UpdArgs (Fin 1) (Fin 2) (Some 3) (Some 1)) initial))) \<and>
   middle (hex_buttons (event (updateEvent (UpdArgs (Fin 1) (Fin 2) (Some 3) (Some 1)) initial))) \<and>
   \<not> mouse4 (hex_buttons (event (updateEvent (UpdArgs (Fin 1) (Fin 2) (Some 3) (Some 1)) initial))) \<and>
   \<not> mouse5 (hex_buttons (event (updateEvent (UpdArgs (Fin 1) (Fin 2) (Some 3) (Some 1)) initial)))"
  using C10_button_decoding [of "UpdArgs (Fin 1) (Fin 2) (Some 3) (Some 1)" initial]
  by (simp add: buttons_or_default_def bit_numeral_simps bit_Suc_0_iff)

subsection \<open>Steps and their traces\<close>

lemma fires_append: "fires (xs @ ys) = fires xs @ fires ys"
  by (induction xs rule: fires.induct) simp_all

lemma calls_append: "calls (xs @ ys) = calls xs @ calls ys"
  by (induction xs rule: calls.induct) simp_all

lemma first_clicks_append: "first_clicks (xs @ ys) = first_clicks xs @ first_clicks ys"
  by (induction xs rule: first_clicks.induct) simp_all

lemma replay_append: "replay sl (xs @ ys) v = replay sl ys (replay sl xs v)"
  by (induction sl xs v rule: replay.induct) simp_all

lemma frame_refl: "frame s s"
  by (simp add: frame_def)

lemma frame_trans: "frame s s' \<Longrightarrow> frame s' s'' \<Longrightarrow> frame s s''"
  by (simp add: frame_def)

lemma extends_refl: "extends s [] s"
  by (simp add: extends_def frame_refl)

lemma extends_trans: "extends s xs s' \<Longrightarrow> extends s' ys s'' \<Longrightarrow> extends s (xs @ ys) s''"
  by (simp add: extends_def replay_append frame_trans[of s s' s''])

lemma latch_ok_refl: "latch_ok s [] s"
  by (simp add: latch_ok_def)

lemma latch_ok_trans: "latch_ok s xs s' \<Longrightarrow> latch_ok s' ys s'' \<Longrightarrow> latch_ok s (xs @ ys) s''"
  by (auto simp: latch_ok_def first_clicks_append)

lemma step_ok_refl: "step_ok s [] s"
  by (simp add: step_ok_def extends_refl latch_ok_refl)

lemma step_ok_trans:
  assumes "step_ok s xs s'" and "step_ok s' ys s''"
  shows "step_ok s (xs @ ys) s''"
proof -
  have e: "extends s (xs @ ys) s''"
    using assms by (auto simp: step_ok_def intro: extends_trans)
  have l: "latch_ok s (xs @ ys) s''"
    using assms by (auto simp: step_ok_def intro: latch_ok_trans)
  have "first_clicks (xs @ ys) = [] \<and> pendingFirstClickHandlers s'' = pendingFirstClickHandlers s"
    if n: "\<not> firstClickHasHappened s''"
  proof -
    from n assms(2) have "\<not> firstClickHasHappened s'"
      by (auto simp: step_ok_def latch_ok_def)
    with n assms show ?thesis
      by (simp add: step_ok_def first_clicks_append)
  qed
  with e l show ?thesis by (simp add: step_ok_def)
qed

lemma quiet_step_refl: "quiet_step s [] s"
  by (simp add: quiet_step_def step_ok_refl)

lemma quiet_step_trans: "quiet_step s xs s' \<Longrightarrow> quiet_step s' ys s'' \<Longrightarrow> quiet_step s (xs @ ys) s''"
  by (auto simp: quiet_step_def fires_append calls_append intro: step_ok_trans)

lemma trace_since_extends: "extends s xs s' \<Longrightarrow> trace_since s s' = xs"
  by (simp add: extends_def trace_since_def)

lemma schedule_quiet: "quiet_step s [Sched sl c] (schedule sl c s)"
  by (cases sl) (auto simp: quiet_step_def step_ok_def extends_def latch_ok_def frame_def
      schedule_def set_slot_def get_slot_def split: slot.splits)

lemma forEach_handlers_eq:
  "forEach_handlers hs s =
     (first_fthrow hs, s\<lparr>log := log s @ map (\<lambda>h. FirstClick (fid h)) (through_first fthrows hs)\<rparr>)"
  by (induction hs arbitrary: s) (simp_all add: Let_def)

lemma first_clicks_map: "first_clicks (map (\<lambda>h. FirstClick (fid h)) hs) = map fid hs"
  by (induction hs) simp_all

lemma fires_map_fc: "fires (map (\<lambda>h. FirstClick (fid h)) hs) = []"
  by (induction hs) simp_all

lemma calls_map_fc: "calls (map (\<lambda>h. FirstClick (fid h)) hs) = []"
  by (induction hs) simp_all

lemma replay_map_fc: "replay sl (map (\<lambda>h. FirstClick (fid h)) hs) v = v"
  by (induction hs) simp_all

lemma firstClick_eq:
  "firstClick s =
     (if firstClickHasHappened s then (Returned, s)
      else (first_fthrow (pendingFirstClickHandlers s),
            s\<lparr>firstClickHasHappened := True,
              pendingFirstClickHandlers :=
                (if first_fthrow (pendingFirstClickHandlers s) = Returned then []
                 else pendingFirstClickHandlers s),
              log := log s @ map (\<lambda>h. FirstClick (fid h))
                                 (through_first fthrows (pendingFirstClickHandlers s))\<rparr>))"
  by (cases "first_fthrow (pendingFirstClickHandlers s)")
     (simp_all add: firstClick_def forEach_handlers_eq Let_def)

lemma firstClick_quiet:
  "\<exists>xs. quiet_step s xs (snd (firstClick s)) \<and> firstClickHasHappened (snd (firstClick s))
        \<and> isTouching (snd (firstClick s)) = isTouching s"
  by (auto simp: firstClick_eq quiet_step_def step_ok_def extends_def latch_ok_def frame_def
      get_slot_def fires_map_fc calls_map_fc replay_map_fc split: slot.splits)

lemma quiet_step_isTouching:
  "quiet_step s xs s' \<Longrightarrow> (b \<longrightarrow> firstClickHasHappened s') \<Longrightarrow> quiet_step s xs (s'\<lparr>isTouching := b\<rparr>)"
  by (auto simp: quiet_step_def step_ok_def extends_def latch_ok_def frame_def get_slot_def split: slot.splits)

lemma schedule_latch: "firstClickHasHappened (schedule sl c s) = firstClickHasHappened s"
  by (cases sl) (simp_all add: schedule_def set_slot_def)

lemma handleMouseDown_eq:
  "handleMouseDown ev s =
     (if fst (firstClick s) = Returned
      then (Returned, schedule SlotDown
             (Closure (UpdArgs (clientX ev) (clientY ev) None (Some (button ev))) DownCallbacks)
             (snd (firstClick s)))
      else firstClick s)"
  by (auto simp: handleMouseDown_def split: prod.splits outcome.splits)

lemma handleTouchStart_eq:
  "handleTouchStart ev s =
     (if isTouching s then (Returned, s)
      else if fst (firstClick s) = Returned
      then (case touches ev of
             [] \<Rightarrow> firstClick s
           | t # _ \<Rightarrow>
               (Returned, (schedule SlotDown
                  (Closure (UpdArgs (touch_clientX t) (touch_clientY t) None (Some 0)) DownCallbacks)
                  (snd (firstClick s)))\<lparr>isTouching := True\<rparr>))
      else firstClick s)"
  by (auto simp: handleTouchStart_def split: prod.splits outcome.splits list.splits)

lemma handleMouseDown_quiet: "\<exists>xs. quiet_step s xs (snd (handleMouseDown ev s))"
proof -
  obtain xs where q: "quiet_step s xs (snd (firstClick s))" using firstClick_quiet by blast
  show ?thesis
  proof (cases "fst (firstClick s)")
    case Returned
    then have "snd (handleMouseDown ev s) = schedule SlotDown
             (Closure (UpdArgs (clientX ev) (clientY ev) None (Some (button ev))) DownCallbacks) (snd (firstClick s))"
      by (simp add: handleMouseDown_eq)
    with quiet_step_trans[OF q schedule_quiet] show ?thesis by metis
  next
    case (Threw e)
    then have "snd (handleMouseDown ev s) = snd (firstClick s)"
      by (simp add: handleMouseDown_eq)
    with q show ?thesis by metis
  qed
qed

lemma handleTouchStart_quiet: "\<exists>xs. quiet_step s xs (snd (handleTouchStart ev s))"
proof (cases "isTouching s")
  case True
  then show ?thesis using quiet_step_refl[of s] by (auto simp: handleTouchStart_def)
next
  case False
  obtain xs where q: "quiet_step s xs (snd (firstClick s))" and l: "firstClickHasHappened (snd (firstClick s))"
    using firstClick_quiet by blast
  show ?thesis
  proof (cases "fst (firstClick s)")
    case Returned
    show ?thesis
    proof (cases "touches ev")
      case Nil
      with Returned False have "snd (handleTouchStart ev s) = snd (firstClick s)"
        by (simp add: handleTouchStart_eq)
      with q show ?thesis by metis
    next
      case (Cons t ts)
      with Returned False have "snd (handleTouchStart ev s) = (schedule SlotDown
                  (Closure (UpdArgs (touch_clientX t) (touch_clientY t) None (Some 0)) DownCallbacks) (snd (firstClick s)))
                  \<lparr>isTouching := True\<rparr>"
        by (simp add: handleTouchStart_eq)
      with quiet_step_isTouching[OF quiet_step_trans[OF q schedule_quiet], of True] l
      show ?thesis by (metis schedule_latch)
    qed
  next
    case (Threw e)
    with False have "snd (handleTouchStart ev s) = snd (firstClick s)"
      by (simp add: handleTouchStart_eq)
    with q show ?thesis by metis
  qed
qed

lemma handleTouchMove_quiet: "\<exists>xs. quiet_step s xs (snd (handleTouchMove ev s))"
  using quiet_step_refl[of s] schedule_quiet[of s SlotMove]
  by (auto simp: handleTouchMove_def split: list.splits)

lemma handleTouchEnd_quiet: "\<exists>xs. quiet_step s xs (snd (handleTouchEnd ev s))"
  using quiet_step_refl[of s] quiet_step_isTouching[OF schedule_quiet[of s SlotUp], of False]
  by (auto simp: handleTouchEnd_def split: list.splits)

lemma handle_quiet: "\<exists>xs. quiet_step s xs (snd (handle r s))"
proof (cases r)
  case (MouseMove ev)
  then show ?thesis using schedule_quiet[of s SlotMove] by (auto simp: handleMouseMove_def)
next
  case (MouseDown ev)
  then show ?thesis using handleMouseDown_quiet by simp
next
  case (MouseUp ev)
  then show ?thesis using schedule_quiet[of s SlotUp] by (auto simp: handleMouseUp_def)
next
  case (MouseOut ev)
  then show ?thesis using schedule_quiet[of s SlotMove] by (auto simp: handleMouseOut_def)
next
  case (MouseOver ev)
  then show ?thesis using schedule_quiet[of s SlotMove] by (auto simp: handleMouseOver_def)
next
  case (TouchStart ev)
  then show ?thesis using handleTouchStart_quiet by simp
next
  case (TouchMove ev)
  then show ?thesis using handleTouchMove_quiet by simp
next
  case (TouchEnd ev)
  then show ?thesis using handleTouchEnd_quiet by simp
qed

lemma dispatchEvents_quiet: "\<exists>xs. quiet_step s xs (dispatchEvents rs s)"
proof (induction rs arbitrary: s)
  case Nil
  then show ?case using quiet_step_refl by auto
next
  case (Cons r rs)
  obtain xs where 1: "quiet_step s xs (snd (handle r s))" using handle_quiet by blast
  obtain ys where 2: "quiet_step (snd (handle r s)) ys (dispatchEvents rs (snd (handle r s)))"
    using Cons.IH by blast
  from quiet_step_trans[OF 1 2] show ?case by auto
qed

lemma passes_ok_quiet: "fires xs = [] \<Longrightarrow> calls xs = [] \<Longrightarrow> passes_ok cur xs"
  by (induction cur xs rule: passes_ok.induct) simp_all

lemma passes_ok_append_nofire:
  "fires xs = [] \<Longrightarrow> passes_ok cur (xs @ ys) = (passes_ok cur xs \<and> passes_ok cur ys)"
  by (induction cur xs rule: passes_ok.induct) (auto split: option.splits)

lemma quiet_step_pass: "quiet_step s xs s' \<Longrightarrow> pass_step cs s xs s'"
  by (simp add: quiet_step_def pass_step_def passes_ok_quiet)

lemma pass_step_refl: "pass_step cs s [] s"
  by (simp add: pass_step_def step_ok_refl)

lemma pass_step_trans: "pass_step cs s xs s' \<Longrightarrow> pass_step cs s' ys s'' \<Longrightarrow> pass_step cs s (xs @ ys) s''"
  by (auto simp: pass_step_def fires_append passes_ok_append_nofire intro: step_ok_trans)

lemma log_Call_pass: "pass_step cs s [Call cs n (event s)] (s\<lparr>log := log s @ [Call cs n (event s)]\<rparr>)"
  by (auto simp: pass_step_def step_ok_def extends_def latch_ok_def frame_def get_slot_def split: slot.splits)

lemma quiet_step_calls: "quiet_step s xs s' \<Longrightarrow> calls xs = []"
  by (simp add: quiet_step_def)

lemma call_listener_pass:
  "\<exists>xs. pass_step cs s xs (snd (call_listener cs l s)) \<and> calls xs = [(cs, lid l)]"
proof -
  let ?s1 = "s\<lparr>log := log s @ [Call cs (lid l) (event s)]\<rparr>"
  obtain ys where q: "quiet_step ?s1 ys (dispatchEvents (emits l) ?s1)"
    using dispatchEvents_quiet by blast
  have "pass_step cs s ([Call cs (lid l) (event s)] @ ys) (dispatchEvents (emits l) ?s1)"
    by (rule pass_step_trans[OF log_Call_pass quiet_step_pass[OF q]])
  moreover have "calls ([Call cs (lid l) (event s)] @ ys) = [(cs, lid l)]"
    using quiet_step_calls[OF q] by simp
  ultimately show ?thesis unfolding call_listener_def Let_def snd_conv by blast
qed

lemma call_listener_fst: "fst (call_listener cs l s) = (if throws l then Threw (ListenerExn (lid l)) else Returned)"
  by (simp add: call_listener_def Let_def)

lemma forEach_callbacks_fst: "fst (forEach_callbacks cs ls s) = first_throw ls"
proof (induction ls arbitrary: s)
  case Nil
  show ?case by simp
next
  case (Cons l ls)
  show ?case
  proof (cases "throws l")
    case True
    with call_listener_fst[of cs l s] show ?thesis by (auto split: prod.splits outcome.splits)
  next
    case False
    with call_listener_fst[of cs l s] Cons.IH show ?thesis by (auto split: prod.splits outcome.splits)
  qed
qed

lemma forEach_callbacks_pass:
  "\<exists>xs. pass_step cs s xs (snd (forEach_callbacks cs ls s)) \<and>
        calls xs = map (\<lambda>l. (cs, lid l)) (through_first throws ls)"
proof (induction ls arbitrary: s)
  case Nil
  show ?case using pass_step_refl[of cs s] by (intro exI[of _ "[]"]) simp
next
  case (Cons l ls)
  obtain xs where 1: "pass_step cs s xs (snd (call_listener cs l s))" and c1: "calls xs = [(cs, lid l)]"
    using call_listener_pass by blast
  show ?case
  proof (cases "throws l")
    case True
    then have "snd (forEach_callbacks cs (l # ls) s) = snd (call_listener cs l s)"
      using call_listener_fst[of cs l s] by (auto split: prod.splits outcome.splits)
    with 1 c1 True show ?thesis by auto
  next
    case False
    then have e: "snd (forEach_callbacks cs (l # ls) s) = snd (forEach_callbacks cs ls (snd (call_listener cs l s)))"
      using call_listener_fst[of cs l s] by (auto split: prod.splits outcome.splits)
    obtain ys where 2: "pass_step cs (snd (call_listener cs l s)) ys (snd (forEach_callbacks cs ls (snd (call_listener cs l s))))"
      and c2: "calls ys = map (\<lambda>l. (cs, lid l)) (through_first throws ls)"
      using Cons.IH by blast
    have "calls (xs @ ys) = map (\<lambda>l. (cs, lid l)) (through_first throws (l # ls))"
      using c1 c2 False by (simp add: calls_append)
    with pass_step_trans[OF 1 2] e show ?thesis by metis
  qed
qed

lemma callbacks_of_frame: "frame s s' \<Longrightarrow> callbacks_of cs s' = callbacks_of cs s"
  by (cases cs) (simp_all add: callbacks_of_def frame_def)

lemma translatePos_frame: "frame s s' \<Longrightarrow> translatePos s' = translatePos s"
  by (auto simp: translatePos_def frame_def fun_eq_iff)

lemma updateEvent_event_set_slot: "event (updateEvent a (set_slot sl v s)) = event (updateEvent a s)"
  by (cases sl) (simp_all add: updateEvent_def set_slot_def translatePos_def Let_def)

lemma updateEvent_lastPos: "lastPos (updateEvent a s) = pos (event (updateEvent a s))"
  by (simp add: updateEvent_def Let_def mutateInto_def)

lemma armed_step:
  "step_ok s [Fire sl c (event (updateEvent (args c) s))] (armed sl c s) \<and>
   event (armed sl c s) = event (updateEvent (args c) s) \<and>
   lastPos (armed sl c s) = pos (event (updateEvent (args c) s))"
  by (cases sl)
     (auto simp: armed_def step_ok_def extends_def latch_ok_def frame_def get_slot_def set_slot_def
        updateEvent_def Let_def translatePos_def mutateInto_def split: slot.splits)

lemma fire_eq: "fire sl c s = forEach_callbacks (triggers c) (callbacks_of (triggers c) s) (armed sl c s)"
proof -
  have "frame s (armed sl c s)" using armed_step[of s sl c] by (simp add: step_ok_def extends_def)
  from callbacks_of_frame[OF this] show ?thesis
    by (simp add: fire_def armed_def triggerCallbacks_def Let_def)
qed

lemma fire_fst: "fst (fire sl c s) = first_throw (callbacks_of (triggers c) s)"
  by (simp add: fire_eq forEach_callbacks_fst)

lemma fire_shape:
  "\<exists>ys. step_ok s (Fire sl c (event (updateEvent (args c) s)) # ys) (snd (fire sl c s)) \<and>
        fires ys = [] \<and>
        passes_ok (Some (c, event (updateEvent (args c) s))) ys \<and>
        event (snd (fire sl c s)) = event (updateEvent (args c) s) \<and>
        lastPos (snd (fire sl c s)) = pos (event (updateEvent (args c) s)) \<and>
        calls ys = map (\<lambda>l. (triggers c, lid l)) (through_first throws (callbacks_of (triggers c) s))"
proof -
  let ?ev = "event (updateEvent (args c) s)"
  let ?ls = "callbacks_of (triggers c) s"
  obtain ys where p: "pass_step (triggers c) (armed sl c s) ys (snd (forEach_callbacks (triggers c) ?ls (armed sl c s)))"
    and c: "calls ys = map (\<lambda>l. (triggers c, lid l)) (through_first throws ?ls)"
    using forEach_callbacks_pass by blast
  have a: "step_ok s [Fire sl c ?ev] (armed sl c s)" "event (armed sl c s) = ?ev" "lastPos (armed sl c s) = pos ?ev"
    using armed_step[of s sl c] by auto
  have "step_ok s ([Fire sl c ?ev] @ ys) (snd (fire sl c s))"
    using step_ok_trans[OF a(1)] p by (simp add: pass_step_def fire_eq)
  moreover have "fires ys = []" using p by (simp add: pass_step_def)
  moreover have "passes_ok (Some (c, ?ev)) ys" using p a(2) by (simp add: pass_step_def)
  moreover have "event (snd (fire sl c s)) = ?ev" "lastPos (snd (fire sl c s)) = pos ?ev"
    using p a by (simp_all add: pass_step_def fire_eq)
  ultimately show ?thesis using c by auto
qed

lemma flush_slot_fst:
  "fst (flush_slot sl s) = (case get_slot sl s of None \<Rightarrow> Returned | Some c \<Rightarrow> first_throw (callbacks_of (triggers c) s))"
  by (simp add: flush_slot_def fire_fst split: option.splits)

lemma flush_slot_shape:
  "\<exists>xs. step_ok s xs (snd (flush_slot sl s)) \<and> (\<forall>cur. passes_ok cur xs) \<and>
        fires xs = (case get_slot sl s of None \<Rightarrow> []
                    | Some c \<Rightarrow> [(sl, c, event (updateEvent (args c) s))]) \<and>
        (case get_slot sl s of None \<Rightarrow> snd (flush_slot sl s) = s
         | Some c \<Rightarrow> event (snd (flush_slot sl s)) = event (updateEvent (args c) s) \<and>
                     lastPos (snd (flush_slot sl s)) = pos (event (updateEvent (args c) s)))"
proof (cases "get_slot sl s")
  case None
  then show ?thesis using step_ok_refl[of s] by (intro exI[of _ "[]"]) (simp add: flush_slot_def)
next
  case (Some c)
  obtain ys where "step_ok s (Fire sl c (event (updateEvent (args c) s)) # ys) (snd (fire sl c s))"
        "fires ys = []"
        "passes_ok (Some (c, event (updateEvent (args c) s))) ys"
        "event (snd (fire sl c s)) = event (updateEvent (args c) s)"
        "lastPos (snd (fire sl c s)) = pos (event (updateEvent (args c) s))"
    using fire_shape by blast
  with Some show ?thesis
    by (intro exI[of _ "Fire sl c (event (updateEvent (args c) s)) # ys"]) (simp add: flush_slot_def)
qed

lemma useUpdate_eq:
  "useUpdate s =
     (if fst (flush_slot SlotMove s) \<noteq> Returned then flush_slot SlotMove s
      else if fst (flush_slot SlotDown (snd (flush_slot SlotMove s))) \<noteq> Returned
      then flush_slot SlotDown (snd (flush_slot SlotMove s))
      else flush_slot SlotUp (snd (flush_slot SlotDown (snd (flush_slot SlotMove s)))))"
  by (auto simp: useUpdate_def split: prod.splits outcome.splits)

lemma passes_ok_append_any: "passes_ok cur xs \<Longrightarrow> (\<forall>cur'. passes_ok cur' ys) \<Longrightarrow> passes_ok cur (xs @ ys)"
  by (induction cur xs rule: passes_ok.induct) (auto split: option.splits)

lemma replay_Some_no_fire: "sl \<notin> fst ` set (fires xs) \<Longrightarrow> replay sl xs (Some c) \<noteq> None"
  by (induction sl xs "Some c" arbitrary: c rule: replay.induct) auto

lemma step_ok_slot: "step_ok s xs s' \<Longrightarrow> get_slot sl s' = replay sl xs (get_slot sl s)"
  by (simp add: step_ok_def extends_def)

lemma step_ok_trace: "step_ok s xs s' \<Longrightarrow> trace_since s s' = xs"
  by (simp add: step_ok_def trace_since_extends)

lemma useUpdate_shape:
  "\<exists>xs. step_ok s xs (snd (useUpdate s)) \<and> passes_ok None xs \<and>
        fires xs =
          (let s1 = snd (flush_slot SlotMove s); s2 = snd (flush_slot SlotDown s1) in
           flush_fires SlotMove s @
           (if fst (flush_slot SlotMove s) \<noteq> Returned then []
            else flush_fires SlotDown s1 @
                 (if fst (flush_slot SlotDown s1) \<noteq> Returned then [] else flush_fires SlotUp s2)))"
proof -
  let ?r1 = "flush_slot SlotMove s"
  let ?r2 = "flush_slot SlotDown (snd ?r1)"
  let ?r3 = "flush_slot SlotUp (snd ?r2)"
  obtain xs1 where 1: "step_ok s xs1 (snd ?r1)" "\<forall>cur. passes_ok cur xs1" "fires xs1 = flush_fires SlotMove s"
    using flush_slot_shape[of s SlotMove] unfolding flush_fires_def by blast
  obtain xs2 where 2: "step_ok (snd ?r1) xs2 (snd ?r2)" "\<forall>cur. passes_ok cur xs2" "fires xs2 = flush_fires SlotDown (snd ?r1)"
    using flush_slot_shape[of "snd ?r1" SlotDown] unfolding flush_fires_def by blast
  obtain xs3 where 3: "step_ok (snd ?r2) xs3 (snd ?r3)" "\<forall>cur. passes_ok cur xs3" "fires xs3 = flush_fires SlotUp (snd ?r2)"
    using flush_slot_shape[of "snd ?r2" SlotUp] unfolding flush_fires_def by blast
  show ?thesis
  proof (cases "fst ?r1 \<noteq> Returned")
    case True
    with 1 show ?thesis by (intro exI[of _ xs1]) (simp add: useUpdate_eq)
  next
    case n1: False
    show ?thesis
    proof (cases "fst ?r2 \<noteq> Returned")
      case True
      have "step_ok s (xs1 @ xs2) (snd ?r2)" by (rule step_ok_trans[OF 1(1) 2(1)])
      moreover have "passes_ok None (xs1 @ xs2)" using 1(2) 2(2) by (simp add: passes_ok_append_any)
      ultimately show ?thesis using n1 True 1(3) 2(3)
        by (intro exI[of _ "xs1 @ xs2"]) (simp add: useUpdate_eq fires_append Let_def)
    next
      case n2: False
      have "step_ok s (xs1 @ xs2 @ xs3) (snd ?r3)"
        by (rule step_ok_trans[OF 1(1) step_ok_trans[OF 2(1) 3(1)]])
      moreover have "passes_ok None (xs1 @ xs2 @ xs3)" using 1(2) 2(2) 3(2) by (simp add: passes_ok_append_any)
      ultimately show ?thesis using n1 n2 1(3) 2(3) 3(3)
        by (intro exI[of _ "xs1 @ xs2 @ xs3"]) (simp add: useUpdate_eq fires_append Let_def)
    qed
  qed
qed

lemma flush_slot_keeps:
  assumes "get_slot sl' s \<noteq> None" "sl' \<noteq> sl"
  shows "get_slot sl' (snd (flush_slot sl s)) \<noteq> None"
proof -
  obtain xs where 1: "step_ok s xs (snd (flush_slot sl s))"
    and 2: "fires xs = (case get_slot sl s of None \<Rightarrow> [] | Some c \<Rightarrow> [(sl, c, event (updateEvent (args c) s))])"
    using flush_slot_shape[of s sl] by blast
  from 2 assms(2) have "sl' \<notin> fst ` set (fires xs)" by (auto split: option.splits)
  moreover obtain c where "get_slot sl' s = Some c" using assms(1) by auto
  ultimately show ?thesis using step_ok_slot[OF 1, of sl'] replay_Some_no_fire by metis
qed




lemma inverse_identity: "inverse_matrix identity_matrix = identity_matrix"
  by (simp add: inverse_matrix_def identity_matrix_def jsub_def Let_def)

lemma transformPoint_identity: "transformPoint identity_matrix (Point (Fin a) (Fin b)) = Point (Fin a) (Fin b)"
  by (simp add: transformPoint_def identity_matrix_def)

lemmas run_defs = useUpdate_def flush_slot_def get_slot_def fire_def set_slot_def
      updateEvent_def translatePos_def inverse_identity transformPoint_identity Let_def
      triggerCallbacks_def callbacks_of_def call_listener_def schedule_def
      handleMouseMove_def handleMouseDown_def handleMouseUp_def handleMouseOut_def handleMouseOver_def
      handleTouchStart_def handleTouchMove_def handleTouchEnd_def firstClick_def
      jsub_def mutateInto_def subtractMutate_def buttons_or_default_def trace_since_def

lemma first_fthrow_none: "\<forall>h\<in>set hs. \<not> fthrows h \<Longrightarrow> first_fthrow hs = Returned"
  by (induction hs) simp_all

lemma first_throw_none: "\<forall>l\<in>set ls. \<not> throws l \<Longrightarrow> first_throw ls = Returned"
  by (induction ls) simp_all

lemma through_first_none: "\<forall>v\<in>set vs. \<not> P v \<Longrightarrow> through_first P vs = vs"
  by (induction vs) simp_all

lemma forEach_callbacks_silent:
  "\<forall>l\<in>set ls. emits l = [] \<Longrightarrow>
   snd (forEach_callbacks cs ls s) =
     s\<lparr>log := log s @ map (\<lambda>l. Call cs (lid l) (event s)) (through_first throws ls)\<rparr>"
proof (induction ls arbitrary: s)
  case Nil
  show ?case by simp
next
  case (Cons l ls)
  then have e: "emits l = []" and r: "\<forall>l\<in>set ls. emits l = []" by auto
  have c: "call_listener cs l s =
     (if throws l then Threw (ListenerExn (lid l)) else Returned, s\<lparr>log := log s @ [Call cs (lid l) (event s)]\<rparr>)"
    by (simp add: call_listener_def e Let_def)
  show ?case
  proof (cases "throws l")
    case True
    then show ?thesis by (simp add: c)
  next
    case False
    then show ?thesis by (simp add: c Cons.IH[OF r])
  qed
qed

lemma updateEvent_pos: "pos (event (updateEvent a s)) = translatePos s (arg_clientX a) (arg_clientY a)"
  by (simp add: updateEvent_def Let_def)

lemma updateEvent_delta:
  "delta (event (updateEvent a s)) = subtractMutate (pos (event (updateEvent a s))) (lastPos s)"
  by (simp add: updateEvent_def Let_def mutateInto_def subtractMutate_def)

lemma step_ok_frame: "step_ok s xs s' \<Longrightarrow> frame s s'"
  by (simp add: step_ok_def extends_def)

lemma flush_slot_frame: "frame s (snd (flush_slot sl s))"
  using flush_slot_shape[of s sl] step_ok_frame by blast

lemma flush_slot_lastPos:
  "get_slot sl s = Some c \<Longrightarrow>
   event (snd (flush_slot sl s)) = event (updateEvent (args c) s) \<and>
   lastPos (snd (flush_slot sl s)) = pos (event (updateEvent (args c) s))"
  using flush_slot_shape[of s sl] by auto

lemma flush_slot_None: "get_slot sl s = None \<Longrightarrow> flush_slot sl s = (Returned, s)"
  by (simp add: flush_slot_def)

lemma flush_slot_synced:
  "lastPos s = pos (event s) \<Longrightarrow> lastPos (snd (flush_slot sl s)) = pos (event (snd (flush_slot sl s)))"
  by (cases "get_slot sl s") (simp_all add: flush_slot_None flush_slot_lastPos)

lemma flush_slot_silent:
  assumes "get_slot sl s = Some c" "\<forall>l\<in>set (callbacks_of (triggers c) s). emits l = []"
  shows "get_slot sl' (snd (flush_slot sl s)) = (if sl' = sl then None else get_slot sl' s)"
proof -
  have "snd (flush_slot sl s) =
      (armed sl c s)\<lparr>log := log (armed sl c s) @
         map (\<lambda>l. Call (triggers c) (lid l) (event (armed sl c s))) (through_first throws (callbacks_of (triggers c) s))\<rparr>"
    using assms by (simp add: flush_slot_def fire_eq forEach_callbacks_silent)
  then show ?thesis
    by (cases sl; cases sl') (simp_all add: armed_def get_slot_def set_slot_def updateEvent_def Let_def)
qed

subsection \<open>The flush\<close>




subsection \<open>Two moves and a press in one tick\<close>

lemma hasty_eq:
  "hasty = initial\<lparr>moveCallbacks := [Listener 1 [] False], downCallbacks := [Listener 2 [] False],
      pendingFirstClickHandlers := [FcHandler 1 True, FcHandler 2 False]\<rparr>"
  by (simp add: hasty_def useFirstClick_def Let_def initial_def)

lemma schedule_down_ok:
  "down_ok s \<Longrightarrow> sl \<noteq> SlotDown \<or> triggers c = DownCallbacks \<Longrightarrow> down_ok (schedule sl c s)"
  by (cases sl) (auto simp: down_ok_def schedule_def set_slot_def)

lemma firstClick_down_ok: "down_ok s \<Longrightarrow> down_ok (snd (firstClick s))"
  by (simp add: firstClick_eq down_ok_def)

lemma handle_down_ok: "down_ok s \<Longrightarrow> down_ok (snd (handle r s))"
proof (cases r)
  case (MouseDown ev)
  assume "down_ok s"
  then show ?thesis using MouseDown firstClick_down_ok[of s]
    by (simp add: handleMouseDown_eq schedule_down_ok)
next
  case (TouchStart ev)
  assume d: "down_ok s"
  have "down_ok (t\<lparr>isTouching := b\<rparr>) = down_ok t" for t b by (simp add: down_ok_def)
  then show ?thesis using TouchStart d firstClick_down_ok[OF d]
    by (cases "touches ev") (simp_all add: handleTouchStart_eq schedule_down_ok)
next
  case (TouchEnd ev)
  assume d: "down_ok s"
  have "down_ok (t\<lparr>isTouching := b\<rparr>) = down_ok t" for t b by (simp add: down_ok_def)
  then show ?thesis using TouchEnd d
    by (cases "changedTouches ev") (simp_all add: handleTouchEnd_def schedule_down_ok)
next
  case (TouchMove ev)
  assume d: "down_ok s"
  then show ?thesis using TouchMove
    by (cases "touches ev") (simp_all add: handleTouchMove_def schedule_down_ok)
qed (simp_all add: handleMouseMove_def handleMouseUp_def handleMouseOut_def handleMouseOver_def
      schedule_down_ok)

lemma dispatchEvents_down_ok: "down_ok s \<Longrightarrow> down_ok (dispatchEvents rs s)"
  by (induction rs arbitrary: s) (simp_all add: handle_down_ok)

lemma call_listener_down_ok: "down_ok s \<Longrightarrow> down_ok (snd (call_listener cs l s))"
proof -
  assume "down_ok s"
  then have "down_ok (s\<lparr>log := log s @ [Call cs (lid l) (event s)]\<rparr>)" by (simp add: down_ok_def)
  then show ?thesis by (simp add: call_listener_def Let_def dispatchEvents_down_ok)
qed

lemma forEach_callbacks_down_ok: "down_ok s \<Longrightarrow> down_ok (snd (forEach_callbacks cs ls s))"
proof (induction ls arbitrary: s)
  case Nil
  then show ?case by simp
next
  case (Cons l ls)
  from call_listener_down_ok[OF Cons.prems, of cs l] Cons.IH
  show ?case by (auto split: prod.splits outcome.splits)
qed

lemma fire_move_down_ok: "down_ok s \<Longrightarrow> down_ok (snd (fire SlotMove c s))"
proof -
  assume "down_ok s"
  then have "down_ok (armed SlotMove c s)"
    by (simp add: down_ok_def armed_def set_slot_def updateEvent_def Let_def)
  then show ?thesis by (simp add: fire_eq forEach_callbacks_down_ok)
qed

lemma burst_state:
  assumes "firstClickHasHappened s \<or> (\<forall>h\<in>set (pendingFirstClickHandlers s). \<not> fthrows h)"
  shows "pendingMove (dispatchEvents (burst b1 k1 b2 k2 dx dy b3) s) =
           Some (Closure (UpdArgs (Fin 20) (Fin 20) (Some b2) None) MoveCallbacks)"
    and "pendingDown (dispatchEvents (burst b1 k1 b2 k2 dx dy b3) s) =
           Some (Closure (UpdArgs dx dy None (Some 0)) DownCallbacks)"
    and "lastPos (dispatchEvents (burst b1 k1 b2 k2 dx dy b3) s) = lastPos s"
    and "event (dispatchEvents (burst b1 k1 b2 k2 dx dy b3) s) = event s"
    and "frame s (dispatchEvents (burst b1 k1 b2 k2 dx dy b3) s)"
proof -
  have "firstClickHasHappened s \<or> first_fthrow (pendingFirstClickHandlers s) = Returned"
    using assms first_fthrow_none by blast
  then show "pendingMove (dispatchEvents (burst b1 k1 b2 k2 dx dy b3) s) =
           Some (Closure (UpdArgs (Fin 20) (Fin 20) (Some b2) None) MoveCallbacks)"
    and "pendingDown (dispatchEvents (burst b1 k1 b2 k2 dx dy b3) s) =
           Some (Closure (UpdArgs dx dy None (Some 0)) DownCallbacks)"
    and "lastPos (dispatchEvents (burst b1 k1 b2 k2 dx dy b3) s) = lastPos s"
    and "event (dispatchEvents (burst b1 k1 b2 k2 dx dy b3) s) = event s"
    and "frame s (dispatchEvents (burst b1 k1 b2 k2 dx dy b3) s)"
    by (auto simp: burst_def handleMouseMove_def handleMouseDown_eq firstClick_eq schedule_def
      set_slot_def frame_def)
qed

lemma flush_slot_Some: "get_slot sl s = Some c \<Longrightarrow> flush_slot sl s = fire sl c s"
  by (simp add: flush_slot_def)

lemma brittle_burst:
  "fst (useUpdate (dispatchEvents (burst 0 0 0 0 (Fin 20) (Fin 20) 1) brittle)) = Threw (ListenerExn 1)"
  "map fst (fires (trace_since (dispatchEvents (burst 0 0 0 0 (Fin 20) (Fin 20) 1) brittle)
      (snd (useUpdate (dispatchEvents (burst 0 0 0 0 (Fin 20) (Fin 20) 1) brittle))))) = [SlotMove]"
  "calls (trace_since (dispatchEvents (burst 0 0 0 0 (Fin 20) (Fin 20) 1) brittle)
      (snd (useUpdate (dispatchEvents (burst 0 0 0 0 (Fin 20) (Fin 20) 1) brittle)))) = [(MoveCallbacks, 1)]"
  by (simp_all add: brittle_def initial_def burst_def run_defs)

lemma hasty_burst:
  "pendingDown (dispatchEvents (burst 0 0 0 0 (Fin 20) (Fin 20) 1) hasty) = None"
  "fst (useUpdate (dispatchEvents (burst 0 0 0 0 (Fin 20) (Fin 20) 1) hasty)) = Returned"
  "map fst (fires (trace_since (dispatchEvents (burst 0 0 0 0 (Fin 20) (Fin 20) 1) hasty)
      (snd (useUpdate (dispatchEvents (burst 0 0 0 0 (Fin 20) (Fin 20) 1) hasty))))) = [SlotMove]"
  "calls (trace_since (dispatchEvents (burst 0 0 0 0 (Fin 20) (Fin 20) 1) hasty)
      (snd (useUpdate (dispatchEvents (burst 0 0 0 0 (Fin 20) (Fin 20) 1) hasty)))) = [(MoveCallbacks, 1)]"
  by (simp_all add: hasty_eq initial_def burst_def run_defs)

text \<open>
  Claim C2, as stated, fails. After move(10,10), move(20,20), down(button 0) the next
  flush runs the move closure only, and no down listener is called: on a component
  whose move listener throws, the exception leaves the flush before the down slot is
  reached; and in a process whose first queued first-click handler throws, the
  exception leaves \<open>handleMouseDown\<close> before the down closure is stored.
\<close>

theorem C2_coalesced_move_then_down_counterexample:
  "downCallbacks brittle = [Listener 2 [] False] \<and>
   fst (useUpdate (dispatchEvents (burst 0 0 0 0 (Fin 20) (Fin 20) 1) brittle)) = Threw (ListenerExn 1) \<and>
   map fst (fires (trace_since (dispatchEvents (burst 0 0 0 0 (Fin 20) (Fin 20) 1) brittle)
      (snd (useUpdate (dispatchEvents (burst 0 0 0 0 (Fin 20) (Fin 20) 1) brittle))))) = [SlotMove] \<and>
   calls (trace_since (dispatchEvents (burst 0 0 0 0 (Fin 20) (Fin 20) 1) brittle)
      (snd (useUpdate (dispatchEvents (burst 0 0 0 0 (Fin 20) (Fin 20) 1) brittle)))) = [(MoveCallbacks, 1)] \<and>
   downCallbacks hasty = [Listener 2 [] False] \<and>
   pendingDown (dispatchEvents (burst 0 0 0 0 (Fin 20) (Fin 20) 1) hasty) = None \<and>
   fst (useUpdate (dispatchEvents (burst 0 0 0 0 (Fin 20) (Fin 20) 1) hasty)) = Returned \<and>
   map fst (fires (trace_since (dispatchEvents (burst 0 0 0 0 (Fin 20) (Fin 20) 1) hasty)
      (snd (useUpdate (dispatchEvents (burst 0 0 0 0 (Fin 20) (Fin 20) 1) hasty))))) = [SlotMove] \<and>
   calls (trace_since (dispatchEvents (burst 0 0 0 0 (Fin 20) (Fin 20) 1) hasty)
      (snd (useUpdate (dispatchEvents (burst 0 0 0 0 (Fin 20) (Fin 20) 1) hasty)))) = [(MoveCallbacks, 1)]"
  using brittle_burst hasty_burst by (simp add: brittle_def hasty_eq initial_def)

text \<open>
  Claim C2, amended. From any state in which the latch is set or no queued first-click
  handler throws, and in which no move listener throws: after the raw events
  move(10,10), move(20,20), down(button 0) of one tick, the trace of the next flush is
  one move pass, then one down pass, then at most an up pass. The move pass runs the
  closure of the second move and calls every move listener once, in registration
  order, with the snapshot of that closure: its position is the translation of
  (20,20) and its delta is that position minus \<open>lastPos\<close> as it was before the tick.
  The down pass runs one closure for the down listeners and calls them in registration
  order, through the first that throws, with its snapshot, whose delta is measured
  from the position of the move dispatch, so \<open>lastPos\<close> was updated by it; when the
  move listeners dispatch no raw events themselves, that closure is the one of the
  down event. After the flush \<open>lastPos\<close> is the position of the snapshot.
\<close>

theorem C2_coalesced_move_then_down:
  assumes "firstClickHasHappened s \<or> (\<forall>h\<in>set (pendingFirstClickHandlers s). \<not> fthrows h)"
      and "\<forall>l\<in>set (moveCallbacks s). \<not> throws l"
  shows "\<exists>evM cD evD ys1 ys2 rest.
      trace_since (dispatchEvents (burst b1 k1 b2 k2 dx dy b3) s)
                  (snd (useUpdate (dispatchEvents (burst b1 k1 b2 k2 dx dy b3) s))) =
        Fire SlotMove (Closure (UpdArgs (Fin 20) (Fin 20) (Some b2) None) MoveCallbacks) evM # ys1 @
        Fire SlotDown cD evD # ys2 @ rest \<and>
      fires ys1 = [] \<and> calls ys1 = map (\<lambda>l. (MoveCallbacks, lid l)) (moveCallbacks s) \<and>
      passes_ok (Some (Closure (UpdArgs (Fin 20) (Fin 20) (Some b2) None) MoveCallbacks, evM)) ys1 \<and>
      fires ys2 = [] \<and>
      calls ys2 = map (\<lambda>l. (DownCallbacks, lid l)) (through_first throws (downCallbacks s)) \<and>
      passes_ok (Some (cD, evD)) ys2 \<and> triggers cD = DownCallbacks \<and>
      (\<forall>f\<in>set (fires rest). fst f = SlotUp) \<and> passes_ok None rest \<and>
      pos evM = translatePos s (Fin 20) (Fin 20) \<and>
      delta evM = subtractMutate (pos evM) (lastPos s) \<and>
      pos evD = translatePos s (arg_clientX (args cD)) (arg_clientY (args cD)) \<and>
      delta evD = subtractMutate (pos evD) (pos evM) \<and>
      ((\<forall>l\<in>set (moveCallbacks s). emits l = []) \<longrightarrow>
         cD = Closure (UpdArgs dx dy None (Some 0)) DownCallbacks) \<and>
      lastPos (snd (useUpdate (dispatchEvents (burst b1 k1 b2 k2 dx dy b3) s))) =
        pos (event (snd (useUpdate (dispatchEvents (burst b1 k1 b2 k2 dx dy b3) s))))"
proof -
  let ?s3 = "dispatchEvents (burst b1 k1 b2 k2 dx dy b3) s"
  let ?cM = "Closure (UpdArgs (Fin 20) (Fin 20) (Some b2) None) MoveCallbacks"
  let ?cD0 = "Closure (UpdArgs dx dy None (Some 0)) DownCallbacks"
  let ?r1 = "flush_slot SlotMove ?s3"
  let ?s4 = "snd ?r1"
  let ?r2 = "flush_slot SlotDown ?s4"
  let ?s5 = "snd ?r2"
  let ?evM = "event (updateEvent (args ?cM) ?s3)"
  note b = burst_state[OF assms(1), of b1 k1 b2 k2 dx dy b3]
  have pm: "get_slot SlotMove ?s3 = Some ?cM" and pd: "get_slot SlotDown ?s3 = Some ?cD0"
    using b(1,2) by (simp_all add: get_slot_def)
  have cb: "callbacks_of MoveCallbacks ?s3 = moveCallbacks s"
    using b(5) by (simp add: callbacks_of_def frame_def)
  have r1: "fst ?r1 = Returned"
    using first_throw_none[OF assms(2)] by (simp add: flush_slot_fst pm cb)
  have f4: "frame s ?s4" using frame_trans[OF b(5) flush_slot_frame] .
  have l4: "event ?s4 = ?evM" "lastPos ?s4 = pos ?evM"
    using flush_slot_lastPos[OF pm] by simp_all
  have "down_ok ?s3" using b(2) by (simp add: down_ok_def)
  then have d4ok: "down_ok ?s4" by (simp add: flush_slot_Some[OF pm] fire_move_down_ok)
  have "get_slot SlotDown ?s4 \<noteq> None"
    using flush_slot_keeps[of SlotDown ?s3 SlotMove] pd by simp
  then obtain cD where d4: "get_slot SlotDown ?s4 = Some cD" by auto
  then have tD: "triggers cD = DownCallbacks" using d4ok by (simp add: down_ok_def get_slot_def)
  let ?evD = "event (updateEvent (args cD) ?s4)"
  have l5: "event ?s5 = ?evD" "lastPos ?s5 = pos ?evD"
    using flush_slot_lastPos[OF d4] by simp_all
  obtain ys1 where m: "step_ok ?s3 (Fire SlotMove ?cM ?evM # ys1) ?s4" "fires ys1 = []"
      "passes_ok (Some (?cM, ?evM)) ys1"
      "calls ys1 = map (\<lambda>l. (triggers ?cM, lid l)) (through_first throws (callbacks_of (triggers ?cM) ?s3))"
    using fire_shape[of ?s3 SlotMove ?cM] unfolding flush_slot_Some[OF pm] by blast
  have cm: "calls ys1 = map (\<lambda>l. (MoveCallbacks, lid l)) (moveCallbacks s)"
    using m(4) through_first_none[OF assms(2)] by (simp add: cb)
  obtain ys2 where d: "step_ok ?s4 (Fire SlotDown cD ?evD # ys2) ?s5" "fires ys2 = []"
      "passes_ok (Some (cD, ?evD)) ys2"
      "calls ys2 = map (\<lambda>l. (triggers cD, lid l)) (through_first throws (callbacks_of (triggers cD) ?s4))"
    using fire_shape[of ?s4 SlotDown cD] unfolding flush_slot_Some[OF d4] by blast
  have "callbacks_of DownCallbacks ?s4 = downCallbacks s"
    using f4 by (simp add: callbacks_of_def frame_def)
  then have cd: "calls ys2 = map (\<lambda>l. (DownCallbacks, lid l)) (through_first throws (downCallbacks s))"
    using d(4) by (simp add: tD)
  obtain xs3 where u: "step_ok ?s5 xs3 (snd (flush_slot SlotUp ?s5))" "\<forall>cur. passes_ok cur xs3"
      "fires xs3 = flush_fires SlotUp ?s5"
    using flush_slot_shape[of ?s5 SlotUp] unfolding flush_fires_def by blast
  define rest where "rest = (if fst ?r2 \<noteq> Returned then [] else xs3)"
  have st: "step_ok ?s3 ((Fire SlotMove ?cM ?evM # ys1) @ (Fire SlotDown cD ?evD # ys2) @ rest)
               (snd (useUpdate ?s3))"
  proof (cases "fst ?r2 \<noteq> Returned")
    case True
    then have "useUpdate ?s3 = ?r2" using r1 by (simp add: useUpdate_eq)
    then show ?thesis using step_ok_trans[OF m(1) d(1)] True by (simp add: rest_def)
  next
    case False
    then have "useUpdate ?s3 = flush_slot SlotUp ?s5" using r1 by (simp add: useUpdate_eq)
    then show ?thesis using step_ok_trans[OF m(1) step_ok_trans[OF d(1) u(1)]] False
      by (simp add: rest_def)
  qed
  have 1: "trace_since ?s3 (snd (useUpdate ?s3)) =
             Fire SlotMove ?cM ?evM # ys1 @ Fire SlotDown cD ?evD # ys2 @ rest"
    using step_ok_trace[OF st] by simp
  have 2: "\<forall>f\<in>set (fires rest). fst f = SlotUp" "passes_ok None rest"
    using u(2,3) by (auto simp: rest_def flush_fires_def split: option.splits)
  have 3: "pos ?evM = translatePos s (Fin 20) (Fin 20)"
    using translatePos_frame[OF b(5)] by (simp add: updateEvent_pos)
  have 4: "delta ?evM = subtractMutate (pos ?evM) (lastPos s)"
    using b(3) by (simp add: updateEvent_delta)
  have 5: "pos ?evD = translatePos s (arg_clientX (args cD)) (arg_clientY (args cD))"
    "delta ?evD = subtractMutate (pos ?evD) (pos ?evM)"
    using translatePos_frame[OF f4] l4(2) by (simp_all add: updateEvent_pos updateEvent_delta)
  have 6: "cD = ?cD0" if "\<forall>l\<in>set (moveCallbacks s). emits l = []"
  proof -
    have "get_slot SlotDown ?s4 = get_slot SlotDown ?s3"
      using flush_slot_silent[OF pm, of SlotDown] that cb by simp
    with d4 pd show ?thesis by simp
  qed
  have 7: "lastPos (snd (useUpdate ?s3)) = pos (event (snd (useUpdate ?s3)))"
  proof (cases "fst ?r2 \<noteq> Returned")
    case True
    then have "useUpdate ?s3 = ?r2" using r1 by (simp add: useUpdate_eq)
    then show ?thesis using l5 by simp
  next
    case False
    then have "useUpdate ?s3 = flush_slot SlotUp ?s5" using r1 by (simp add: useUpdate_eq)
    moreover have "lastPos ?s5 = pos (event ?s5)" using l5 by simp
    ultimately show ?thesis using flush_slot_synced[of ?s5 SlotUp] by simp
  qed
  show ?thesis
    unfolding 1 using m(2,3) cm d(2,3) cd tD 2 3 4 5 6 7 by blast
qed

lemma watched_hyps:
  "\<forall>h\<in>set (pendingFirstClickHandlers watched). \<not> fthrows h"
  "\<forall>l\<in>set (moveCallbacks watched). \<not> throws l"
  "\<forall>l\<in>set (moveCallbacks watched). emits l = []"
  by (simp_all add: watched_def initial_def)

lemma watched_hyps2:
  "firstClickHasHappened watched \<or> (\<forall>h\<in>set (pendingFirstClickHandlers watched). \<not> fthrows h)"
  by (simp add: watched_def initial_def)

lemma watched_translate: "translatePos watched (Fin a) (Fin b) = Point (Fin a) (Fin b)"
  by (simp add: watched_def initial_def translatePos_def inverse_identity transformPoint_identity Let_def jsub_def)

theorem C2_coalesced_move_then_down_witness:
  "\<exists>evM evD ys1 ys2 rest.
      trace_since (dispatchEvents (burst 0 0 0 0 (Fin 20) (Fin 20) 1) watched)
                  (snd (useUpdate (dispatchEvents (burst 0 0 0 0 (Fin 20) (Fin 20) 1) watched))) =
        Fire SlotMove (Closure (UpdArgs (Fin 20) (Fin 20) (Some 0) None) MoveCallbacks) evM # ys1 @
        Fire SlotDown (Closure (UpdArgs (Fin 20) (Fin 20) None (Some 0)) DownCallbacks) evD # ys2 @ rest \<and>
      calls ys1 = [(MoveCallbacks, 1)] \<and> calls ys2 = [(DownCallbacks, 2)] \<and>
      pos evM = Point (Fin 20) (Fin 20) \<and>
      delta evM = Point (Fin 17) (Fin 16) \<and>
      pos evD = Point (Fin 20) (Fin 20) \<and>
      delta evD = Point (Fin 0) (Fin 0)"
proof -
  from C2_coalesced_move_then_down [OF watched_hyps2 watched_hyps(2), of 0 0 0 0 "Fin 20" "Fin 20" 1]
  obtain evM cD evD ys1 ys2 rest where
    "trace_since (dispatchEvents (burst 0 0 0 0 (Fin 20) (Fin 20) 1) watched)
                  (snd (useUpdate (dispatchEvents (burst 0 0 0 0 (Fin 20) (Fin 20) 1) watched))) =
        Fire SlotMove (Closure (UpdArgs (Fin 20) (Fin 20) (Some 0) None) MoveCallbacks) evM # ys1 @
        Fire SlotDown cD evD # ys2 @ rest"
    "calls ys1 = map (\<lambda>l. (MoveCallbacks, lid l)) (moveCallbacks watched)"
    "calls ys2 = map (\<lambda>l. (DownCallbacks, lid l)) (through_first throws (downCallbacks watched))"
    "pos evM = translatePos watched (Fin 20) (Fin 20)"
    "delta evM = subtractMutate (pos evM) (lastPos watched)"
    "pos evD = translatePos watched (arg_clientX (args cD)) (arg_clientY (args cD))"
    "delta evD = subtractMutate (pos evD) (pos evM)"
    "(\<forall>l\<in>set (moveCallbacks watched). emits l = []) \<longrightarrow>
         cD = Closure (UpdArgs (Fin 20) (Fin 20) None (Some 0)) DownCallbacks"
    by blast
  moreover have "lastPos watched = Point (Fin 3) (Fin 4)"
    "moveCallbacks watched = [Listener 1 [] False]" "downCallbacks watched = [Listener 2 [] False]"
    by (simp_all add: watched_def initial_def)
  ultimately have
    "trace_since (dispatchEvents (burst 0 0 0 0 (Fin 20) (Fin 20) 1) watched)
                  (snd (useUpdate (dispatchEvents (burst 0 0 0 0 (Fin 20) (Fin 20) 1) watched))) =
        Fire SlotMove (Closure (UpdArgs (Fin 20) (Fin 20) (Some 0) None) MoveCallbacks) evM # ys1 @
        Fire SlotDown (Closure (UpdArgs (Fin 20) (Fin 20) None (Some 0)) DownCallbacks) evD # ys2 @ rest \<and>
      calls ys1 = [(MoveCallbacks, 1)] \<and> calls ys2 = [(DownCallbacks, 2)] \<and>
      pos evM = Point (Fin 20) (Fin 20) \<and>
      delta evM = Point (Fin 17) (Fin 16) \<and>
      pos evD = Point (Fin 20) (Fin 20) \<and>
      delta evD = Point (Fin 0) (Fin 0)"
    using watched_hyps(3) by (simp add: watched_translate subtractMutate_def jsub_def)
  then show ?thesis by blast
qed

subsection \<open>A listener that throws\<close>

lemma first_throw_split:
  "throws l \<Longrightarrow> \<forall>p\<in>set before. \<not> throws p \<Longrightarrow>
   first_throw (before @ l # after) = Threw (ListenerExn (lid l))"
  by (induction before) simp_all

lemma through_first_split:
  "P l \<Longrightarrow> \<forall>p\<in>set before. \<not> P p \<Longrightarrow> through_first P (before @ l # after) = before @ [l]"
  by (induction before) simp_all

lemma triggerCallbacks_calls:
  "calls (trace_since s (snd (triggerCallbacks cs s))) =
     map (\<lambda>p. (cs, lid p)) (through_first throws (callbacks_of cs s))"
proof -
  obtain xs where "pass_step cs s xs (snd (forEach_callbacks cs (callbacks_of cs s) s))"
    and c: "calls xs = map (\<lambda>l. (cs, lid l)) (through_first throws (callbacks_of cs s))"
    using forEach_callbacks_pass by blast
  then have "trace_since s (snd (triggerCallbacks cs s)) = xs"
    by (simp add: pass_step_def step_ok_trace triggerCallbacks_def)
  with c show ?thesis by simp
qed

lemma faulty_pass:
  "fst (triggerCallbacks MoveCallbacks faulty) = Threw (ListenerExn 1)"
  "calls (trace_since faulty (snd (triggerCallbacks MoveCallbacks faulty))) = [(MoveCallbacks, 1)]"
  by (simp_all add: faulty_def initial_def run_defs)

lemma faulty_tick:
  "fst (useUpdate faulty) = Threw (ListenerExn 1)"
  "calls (trace_since faulty (snd (useUpdate faulty))) = [(MoveCallbacks, 1)]"
  "pendingDown (snd (useUpdate faulty)) = pendingDown faulty"
  by (simp_all add: faulty_def initial_def run_defs)

text \<open>
  Claim C3, as stated, fails: of two move listeners the first throws; the second is not
  called in that pass, and the exception leaves the dispatch loop and the flush.
\<close>

theorem C3_listener_throw_counterexample:
  "moveCallbacks faulty = [Listener 1 [] True, Listener 2 [] False] \<and>
   fst (triggerCallbacks MoveCallbacks faulty) = Threw (ListenerExn 1) \<and>
   calls (trace_since faulty (snd (triggerCallbacks MoveCallbacks faulty))) = [(MoveCallbacks, 1)] \<and>
   fst (useUpdate faulty) = Threw (ListenerExn 1) \<and>
   calls (trace_since faulty (snd (useUpdate faulty))) = [(MoveCallbacks, 1)]"
  using faulty_pass faulty_tick by (simp add: faulty_def initial_def)

text \<open>
  Claim C3, amended. For every listener set of one event class and every dispatch pass
  over it: if a listener throws and none registered before it does, then the listeners
  registered before it and the one that throws have been called, in registration order,
  the listeners registered after it are not called in that pass, and the exception
  leaves \<open>triggerCallbacks\<close>; it also leaves the pending closure that started the pass,
  and, when that closure is the move slot's, the flush, which then runs no other slot
  on that tick.
\<close>

theorem C3_listener_throw:
  assumes "callbacks_of cs s = before @ l # after" and "throws l" and "\<forall>p\<in>set before. \<not> throws p"
  shows "fst (triggerCallbacks cs s) = Threw (ListenerExn (lid l)) \<and>
         calls (trace_since s (snd (triggerCallbacks cs s))) = map (\<lambda>p. (cs, lid p)) (before @ [l]) \<and>
         (get_slot sl s = Some c \<and> triggers c = cs \<longrightarrow>
            fst (flush_slot sl s) = Threw (ListenerExn (lid l))) \<and>
         (get_slot SlotMove s = Some c \<and> triggers c = cs \<longrightarrow>
            fst (useUpdate s) = Threw (ListenerExn (lid l)) \<and>
            map fst (fires (trace_since s (snd (useUpdate s)))) = [SlotMove])"
proof -
  have ft: "first_throw (callbacks_of cs s) = Threw (ListenerExn (lid l))"
    using first_throw_split[OF assms(2,3)] assms(1) by simp
  have 1: "fst (triggerCallbacks cs s) = Threw (ListenerExn (lid l))"
    by (simp add: triggerCallbacks_def forEach_callbacks_fst ft)
  have 2: "calls (trace_since s (snd (triggerCallbacks cs s))) = map (\<lambda>p. (cs, lid p)) (before @ [l])"
    using through_first_split[of throws l before after, OF assms(2,3)] assms(1)
    by (simp add: triggerCallbacks_calls)
  have 3: "fst (flush_slot sl s) = Threw (ListenerExn (lid l))" if "get_slot sl s = Some c" "triggers c = cs"
    using that ft by (simp add: flush_slot_fst)
  have 4: "fst (useUpdate s) = Threw (ListenerExn (lid l)) \<and>
           map fst (fires (trace_since s (snd (useUpdate s)))) = [SlotMove]"
    if h: "get_slot SlotMove s = Some c" "triggers c = cs"
  proof -
    have r: "fst (flush_slot SlotMove s) = Threw (ListenerExn (lid l))"
      using h ft by (simp add: flush_slot_fst)
    then have u: "useUpdate s = flush_slot SlotMove s" by (simp add: useUpdate_eq)
    obtain xs where st: "step_ok s xs (snd (flush_slot SlotMove s))"
      and fi: "fires xs = (case get_slot SlotMove s of None \<Rightarrow> []
                    | Some c \<Rightarrow> [(SlotMove, c, event (updateEvent (args c) s))])"
      using flush_slot_shape[of s SlotMove] by blast
    have "trace_since s (snd (useUpdate s)) = xs" using step_ok_trace[OF st] u by simp
    then show ?thesis using r u fi h by simp
  qed
  from 1 2 3 4 show ?thesis by blast
qed

theorem C3_listener_throw_witness:
  "fst (triggerCallbacks MoveCallbacks faulty) = Threw (ListenerExn 1) \<and>
   calls (trace_since faulty (snd (triggerCallbacks MoveCallbacks faulty))) = [(MoveCallbacks, 1)] \<and>
   fst (flush_slot SlotMove faulty) = Threw (ListenerExn 1) \<and>
   fst (useUpdate faulty) = Threw (ListenerExn 1) \<and>
   map fst (fires (trace_since faulty (snd (useUpdate faulty)))) = [SlotMove]"
proof -
  have cb: "callbacks_of MoveCallbacks faulty = [] @ Listener 1 [] True # [Listener 2 [] False]"
    by (simp add: faulty_def initial_def callbacks_of_def)
  have sl: "get_slot SlotMove faulty = Some (Closure (UpdArgs (Fin 1) (Fin 2) (Some 0) None) MoveCallbacks)"
    by (simp add: faulty_def initial_def get_slot_def)
  show ?thesis
    using C3_listener_throw [OF cb, of SlotMove "Closure (UpdArgs (Fin 1) (Fin 2) (Some 0) None) MoveCallbacks"] sl
    by simp
qed

subsection \<open>One slot for move, out and over\<close>

lemma handle_move_closure:
  "move_closure r = Some c \<Longrightarrow> handle r s = (Returned, schedule SlotMove c s)"
  by (cases r) (auto simp: handleMouseMove_def handleMouseOut_def handleMouseOver_def)

lemma schedule_move: "schedule SlotMove c s = s\<lparr>pendingMove := Some c, log := log s @ [Sched SlotMove c]\<rparr>"
  by (simp add: schedule_def set_slot_def)

lemma dispatch_moves:
  assumes "\<forall>r\<in>set rs. move_closure r \<noteq> None" "rs \<noteq> []"
  shows "dispatchEvents rs s =
     s\<lparr>pendingMove := move_closure (last rs),
       log := log s @ map (\<lambda>r. Sched SlotMove (the (move_closure r))) rs\<rparr>"
  using assms
proof (induction rs arbitrary: s)
  case Nil
  then show ?case by simp
next
  case (Cons r rs)
  then obtain c where c: "move_closure r = Some c" by auto
  show ?case
  proof (cases "rs = []")
    case True
    then show ?thesis by (simp add: handle_move_closure[OF c] schedule_move c)
  next
    case False
    with Cons have "dispatchEvents rs (schedule SlotMove c s) =
       (schedule SlotMove c s)\<lparr>pendingMove := move_closure (last rs),
         log := log (schedule SlotMove c s) @ map (\<lambda>r. Sched SlotMove (the (move_closure r))) rs\<rparr>"
      by simp
    with False show ?thesis by (simp add: handle_move_closure[OF c] schedule_move c)
  qed
qed

lemma tick_move_fires:
  "filter (\<lambda>f. fst f = SlotMove) (fires (trace_since s (snd (useUpdate s)))) = flush_fires SlotMove s"
proof -
  let ?r1 = "flush_slot SlotMove s"
  let ?r2 = "flush_slot SlotDown (snd ?r1)"
  obtain xs where st: "step_ok s xs (snd (useUpdate s))"
    and fi: "fires xs =
          (let s1 = snd (flush_slot SlotMove s); s2 = snd (flush_slot SlotDown s1) in
           flush_fires SlotMove s @
           (if fst (flush_slot SlotMove s) \<noteq> Returned then []
            else flush_fires SlotDown s1 @
                 (if fst (flush_slot SlotDown s1) \<noteq> Returned then [] else flush_fires SlotUp s2)))"
    using useUpdate_shape by blast
  have tr: "trace_since s (snd (useUpdate s)) = xs" by (rule step_ok_trace[OF st])
  have a: "filter (\<lambda>f. fst f = SlotMove) (flush_fires SlotMove t) = flush_fires SlotMove t" for t
    by (simp add: flush_fires_def split: option.splits)
  have b: "filter (\<lambda>f. fst f = SlotMove) (flush_fires SlotDown t) = []" for t
    by (simp add: flush_fires_def split: option.splits)
  have c: "filter (\<lambda>f. fst f = SlotMove) (flush_fires SlotUp t) = []" for t
    by (simp add: flush_fires_def split: option.splits)
  show ?thesis unfolding tr fi Let_def by (simp add: a b c)
qed

text \<open>
  Claim C5. For every non-empty sequence of mousemove, mouseout and mouseover events
  delivered without a flush in between, from any state: the move slot holds the closure
  of the last event, with its data and its callback set, and the other slots are
  untouched; apart from the trace the state is the one that the last event alone would
  have produced; the next flush runs exactly one closure from the move slot, the one of
  the last event. And in any tick from any state, at most one closure runs from the
  move slot.
\<close>

theorem C5_move_out_over_share_slot:
  assumes "rs \<noteq> []" and "\<forall>r\<in>set rs. move_closure r \<noteq> None"
  shows "pendingMove (dispatchEvents rs s) = move_closure (last rs) \<and>
         pendingDown (dispatchEvents rs s) = pendingDown s \<and>
         pendingUp (dispatchEvents rs s) = pendingUp s \<and>
         (dispatchEvents rs s)\<lparr>log := l\<rparr> = (dispatchEvents [last rs] s)\<lparr>log := l\<rparr> \<and>
         filter (\<lambda>f. fst f = SlotMove)
           (fires (trace_since (dispatchEvents rs s) (snd (useUpdate (dispatchEvents rs s))))) =
           [(SlotMove, the (move_closure (last rs)),
             event (updateEvent (args (the (move_closure (last rs)))) s))] \<and>
         length (filter (\<lambda>f. fst f = SlotMove) (fires (trace_since t (snd (useUpdate t))))) \<le> 1"
proof -
  note d = dispatch_moves[OF assms(2,1), of s]
  obtain c where c: "move_closure (last rs) = Some c" using assms by (meson last_in_set not_None_eq)
  have one: "dispatchEvents [last rs] s = s\<lparr>pendingMove := Some c, log := log s @ [Sched SlotMove c]\<rparr>"
    by (simp add: handle_move_closure[OF c] schedule_move)
  have ev: "event (updateEvent (args c) (dispatchEvents rs s)) = event (updateEvent (args c) s)"
    by (simp add: d updateEvent_def translatePos_def Let_def)
  have 5: "filter (\<lambda>f. fst f = SlotMove)
           (fires (trace_since (dispatchEvents rs s) (snd (useUpdate (dispatchEvents rs s))))) =
           [(SlotMove, c, event (updateEvent (args c) s))]"
    unfolding tick_move_fires using ev by (simp add: flush_fires_def get_slot_def d c)
  have 6: "length (filter (\<lambda>f. fst f = SlotMove) (fires (trace_since t (snd (useUpdate t))))) \<le> 1"
    unfolding tick_move_fires by (simp add: flush_fires_def split: option.splits)
  have 1: "pendingMove (dispatchEvents rs s) = move_closure (last rs)"
    "pendingDown (dispatchEvents rs s) = pendingDown s" "pendingUp (dispatchEvents rs s) = pendingUp s"
    by (simp_all add: d)
  have 4: "(dispatchEvents rs s)\<lparr>log := l\<rparr> = (dispatchEvents [last rs] s)\<lparr>log := l\<rparr>"
    unfolding one by (simp add: d c)
  show ?thesis using 1 4 5 6 by (simp only: c option.sel simp_thms)
qed

theorem C5_move_out_over_share_slot_witness:
  "pendingMove (dispatchEvents [MouseMove (MouseEvent (Fin 1) (Fin 2) 0 0), MouseOut (MouseEvent (Fin 9) (Fin 9) 1 0)] watched) =
     Some (Closure (UpdArgs (Fin 9) (Fin 9) (Some 1) None) OutCallbacks) \<and>
   map (\<lambda>f. triggers (fst (snd f))) (filter (\<lambda>f. fst f = SlotMove)
     (fires (trace_since (dispatchEvents [MouseMove (MouseEvent (Fin 1) (Fin 2) 0 0), MouseOut (MouseEvent (Fin 9) (Fin 9) 1 0)] watched)
        (snd (useUpdate (dispatchEvents [MouseMove (MouseEvent (Fin 1) (Fin 2) 0 0), MouseOut (MouseEvent (Fin 9) (Fin 9) 1 0)] watched)))))) =
     [OutCallbacks]"
proof -
  let ?rs = "[MouseMove (MouseEvent (Fin 1) (Fin 2) 0 0), MouseOut (MouseEvent (Fin 9) (Fin 9) 1 0)]"
  have h: "?rs \<noteq> []" "\<forall>r\<in>set ?rs. move_closure r \<noteq> None" by simp_all
  show ?thesis using C5_move_out_over_share_slot [OF h, of watched] by simp
qed

subsection \<open>The first-click latch\<close>

lemma quiet_step_log: "quiet_step s xs s' \<Longrightarrow> log s' = log s @ xs \<and> latch_ok s xs s'"
  by (simp add: quiet_step_def step_ok_def extends_def)

lemma step_ok_log: "step_ok s xs s' \<Longrightarrow> log s' = log s @ xs \<and> latch_ok s xs s'"
  by (simp add: step_ok_def extends_def)

lemma do_step_latch: "\<exists>xs. log (do_step x s) = log s @ xs \<and> latch_ok s xs (do_step x s)"
proof (cases x)
  case (Raw r)
  then show ?thesis using handle_quiet[of s r] quiet_step_log by auto
next
  case Tick
  then show ?thesis using useUpdate_shape[of s] step_ok_log by auto
next
  case (UseFirstClick h)
  then show ?thesis by (intro exI[of _ "[]"]) (simp add: useFirstClick_def latch_ok_def Let_def)
next
  case (Register cs l)
  then show ?thesis
    by (intro exI[of _ "[]"], cases cs)
       (simp_all add: latch_ok_def onMouseMove_def onMouseDown_def onMouseUp_def
          onCanvasLeave_def onCanvasEnter_def)
qed

lemma run_latch: "\<exists>xs. log (run steps s) = log s @ xs \<and> latch_ok s xs (run steps s)"
proof (induction steps arbitrary: s)
  case Nil
  show ?case by (intro exI[of _ "[]"]) (simp add: latch_ok_refl)
next
  case (Cons x steps)
  obtain xs where 1: "log (do_step x s) = log s @ xs" "latch_ok s xs (do_step x s)"
    using do_step_latch by blast
  obtain ys where 2: "log (run steps (do_step x s)) = log (do_step x s) @ ys"
      "latch_ok (do_step x s) ys (run steps (do_step x s))"
    using Cons.IH by blast
  show ?case using 1 2 latch_ok_trans[OF 1(2) 2(2)] by (intro exI[of _ "xs @ ys"]) simp
qed

lemma run_append: "run (xs @ ys) s = run ys (run xs s)"
  by (induction xs arbitrary: s) simp_all

lemma latched_run:
  assumes "firstClickHasHappened s"
  shows "firstClickHasHappened (run steps s) \<and> first_clicks (trace_since s (run steps s)) = []"
proof -
  obtain xs where "log (run steps s) = log s @ xs" "latch_ok s xs (run steps s)"
    using run_latch by blast
  then show ?thesis using assms by (simp add: latch_ok_def trace_since_def)
qed

lemma touching_after_latch:
  "isTouching s \<longrightarrow> firstClickHasHappened s \<Longrightarrow>
   isTouching (run steps s) \<longrightarrow> firstClickHasHappened (run steps s)"
  using run_latch[of steps s] by (auto simp: latch_ok_def)

lemma first_fthrow_split:
  "fthrows h \<Longrightarrow> \<forall>p\<in>set before. \<not> fthrows p \<Longrightarrow>
   first_fthrow (before @ h # after) = Threw (HandlerExn (fid h))"
  by (induction before) simp_all

lemma handleMouseDown_handler_throws:
  assumes "\<not> firstClickHasHappened s" "pendingFirstClickHandlers s = before @ h # after"
    "fthrows h" "\<forall>p\<in>set before. \<not> fthrows p"
  shows "fst (handleMouseDown ev s) = Threw (HandlerExn (fid h)) \<and>
         firstClickHasHappened (snd (handleMouseDown ev s)) \<and>
         first_clicks (trace_since s (snd (handleMouseDown ev s))) = map fid (before @ [h]) \<and>
         pendingFirstClickHandlers (snd (handleMouseDown ev s)) = pendingFirstClickHandlers s \<and>
         pendingDown (snd (handleMouseDown ev s)) = pendingDown s"
  using assms first_fthrow_split[OF assms(3,4), of after]
    through_first_split[of fthrows h before after, OF assms(3,4)]
  by (simp add: handleMouseDown_eq firstClick_eq trace_since_def first_clicks_map first_clicks_append)

lemma do_step_unlatched:
  "\<exists>xs. log (do_step x s) = log s @ xs \<and> latch_ok s xs (do_step x s) \<and>
        (\<not> firstClickHasHappened (do_step x s) \<longrightarrow>
           first_clicks xs = [] \<and>
           pendingFirstClickHandlers (do_step x s) = pendingFirstClickHandlers s @ registered [x])"
proof (cases x)
  case (Raw r)
  obtain xs where "quiet_step s xs (snd (handle r s))" using handle_quiet by blast
  then have "step_ok s xs (snd (handle r s))" by (simp add: quiet_step_def)
  then show ?thesis using Raw by (intro exI[of _ xs]) (simp add: step_ok_def extends_def)
next
  case Tick
  obtain xs where "step_ok s xs (snd (useUpdate s))" using useUpdate_shape by blast
  then show ?thesis using Tick by (intro exI[of _ xs]) (simp add: step_ok_def extends_def)
next
  case (UseFirstClick h)
  then show ?thesis by (intro exI[of _ "[]"]) (simp add: useFirstClick_def latch_ok_def Let_def)
next
  case (Register cs l)
  then show ?thesis
    by (intro exI[of _ "[]"], cases cs)
       (simp_all add: latch_ok_def onMouseMove_def onMouseDown_def onMouseUp_def
          onCanvasLeave_def onCanvasEnter_def)
qed

lemma registered_Cons: "registered (x # xs) = registered [x] @ registered xs"
  by (cases x) simp_all

lemma run_unlatched:
  "\<exists>xs. log (run pre s) = log s @ xs \<and> latch_ok s xs (run pre s) \<and>
        (\<not> firstClickHasHappened (run pre s) \<longrightarrow>
           first_clicks xs = [] \<and>
           pendingFirstClickHandlers (run pre s) = pendingFirstClickHandlers s @ registered pre)"
proof (induction pre arbitrary: s)
  case Nil
  show ?case by (intro exI[of _ "[]"]) (simp add: latch_ok_refl)
next
  case (Cons x pre)
  let ?t = "do_step x s"
  obtain xs where 1: "log ?t = log s @ xs" "latch_ok s xs ?t"
    "\<not> firstClickHasHappened ?t \<longrightarrow> first_clicks xs = [] \<and>
       pendingFirstClickHandlers ?t = pendingFirstClickHandlers s @ registered [x]"
    using do_step_unlatched by blast
  obtain ys where 2: "log (run pre ?t) = log ?t @ ys" "latch_ok ?t ys (run pre ?t)"
    "\<not> firstClickHasHappened (run pre ?t) \<longrightarrow> first_clicks ys = [] \<and>
       pendingFirstClickHandlers (run pre ?t) = pendingFirstClickHandlers ?t @ registered pre"
    using Cons.IH by blast
  have "first_clicks (xs @ ys) = [] \<and>
        pendingFirstClickHandlers (run pre ?t) = pendingFirstClickHandlers s @ registered (x # pre)"
    if n: "\<not> firstClickHasHappened (run pre ?t)"
  proof -
    from n 2(2) have "\<not> firstClickHasHappened ?t" by (auto simp: latch_ok_def)
    with n 1(3) 2(3) show ?thesis
      using registered_Cons[of x pre] by (simp add: first_clicks_append)
  qed
  then show ?case using 1 2 latch_ok_trans[OF 1(2) 2(2)]
    by (intro exI[of _ "xs @ ys"]) simp
qed

lemma before_first_click:
  assumes "\<not> firstClickHasHappened (run pre s)"
  shows "pendingFirstClickHandlers (run pre s) = pendingFirstClickHandlers s @ registered pre \<and>
         first_clicks (trace_since s (run pre s)) = [] \<and> \<not> firstClickHasHappened s"
proof -
  obtain xs where "log (run pre s) = log s @ xs" "latch_ok s xs (run pre s)"
    "\<not> firstClickHasHappened (run pre s) \<longrightarrow> first_clicks xs = [] \<and>
           pendingFirstClickHandlers (run pre s) = pendingFirstClickHandlers s @ registered pre"
    using run_unlatched by blast
  with assms show ?thesis by (auto simp: trace_since_def latch_ok_def)
qed

lemma first_click_effect:
  assumes "\<not> firstClickHasHappened s" "\<not> isTouching s" "is_click r"
  shows "firstClickHasHappened (snd (handle r s)) \<and>
         fst (handle r s) = first_fthrow (pendingFirstClickHandlers s) \<and>
         first_clicks (trace_since s (snd (handle r s))) =
           map fid (through_first fthrows (pendingFirstClickHandlers s)) \<and>
         pendingFirstClickHandlers (snd (handle r s)) =
           (if first_fthrow (pendingFirstClickHandlers s) = Returned then []
            else pendingFirstClickHandlers s)"
proof (cases r)
  case (MouseDown ev)
  then show ?thesis using assms(1)
    by (simp add: handleMouseDown_eq firstClick_eq schedule_def set_slot_def trace_since_def
        first_clicks_append first_clicks_map)
next
  case (TouchStart ev)
  then show ?thesis using assms(1,2)
    by (cases "touches ev")
       (simp_all add: handleTouchStart_eq firstClick_eq schedule_def set_slot_def trace_since_def
        first_clicks_append first_clicks_map)
qed (use assms(3) in simp_all)

text \<open>
  Claim C4, as stated, fails. Two handlers were registered before any click and the
  first of them throws: the first mousedown sets the latch and calls the first
  handler only; the exception leaves \<open>handleMouseDown\<close>, the queue is not cleared,
  and the second handler is not called then or on any later mousedown.
\<close>

theorem C4_first_click_latch_counterexample:
  "\<not> firstClickHasHappened hasty \<and>
   pendingFirstClickHandlers hasty = [FcHandler 1 True, FcHandler 2 False] \<and>
   fst (handle (MouseDown (MouseEvent (Fin 5) (Fin 5) 0 0)) hasty) = Threw (HandlerExn 1) \<and>
   first_clicks (trace_since hasty (snd (handle (MouseDown (MouseEvent (Fin 5) (Fin 5) 0 0)) hasty))) = [1] \<and>
   pendingFirstClickHandlers (snd (handle (MouseDown (MouseEvent (Fin 5) (Fin 5) 0 0)) hasty)) =
     [FcHandler 1 True, FcHandler 2 False] \<and>
   first_clicks (trace_since hasty
     (run [Raw (MouseDown (MouseEvent (Fin 5) (Fin 5) 0 0)), Tick,
           Raw (MouseDown (MouseEvent (Fin 6) (Fin 6) 0 0)), Tick] hasty)) = [1]"
  by (simp add: hasty_eq initial_def run_defs)

text \<open>
  Claim C4, amended. Take a state in which, as in every reachable state, a component
  that is touching has seen the latch set; let any history \<open>pre\<close> run (raw events,
  ticks, registrations) after which the latch is still unset, so that no mousedown
  and no touchstart has been observed; let a mousedown or a touchstart arrive; let any
  history \<open>later\<close> follow; then register \<open>h\<close> and let any history follow again.
  Then before the click no first-click handler had been called and the queue held, in
  order, what it held at the start and the handlers registered during \<open>pre\<close>. The
  click sets the latch and calls the queued handlers once each, in registration order,
  through the first that throws; when none throws these are all of them and the queue
  is emptied, and when one throws the queue is left as it was. After the click the
  latch stays set and no first-click handler is called in any later step, neither a
  queued one nor \<open>h\<close>; and the flag returned to \<open>h\<close>'s registration reads true.
\<close>

theorem C4_first_click_latch:
  assumes "isTouching s0 \<longrightarrow> firstClickHasHappened s0"
    and "s1 = run pre s0" and "\<not> firstClickHasHappened s1"
    and "is_click click" and "s2 = snd (handle click s1)"
    and "s3 = run later s2" and "s4 = run afterwards (snd (useFirstClick h s3))"
  shows "pendingFirstClickHandlers s1 = pendingFirstClickHandlers s0 @ registered pre \<and>
         first_clicks (trace_since s0 s1) = [] \<and>
         firstClickHasHappened s2 \<and>
         first_clicks (trace_since s1 s2) =
           map fid (through_first fthrows (pendingFirstClickHandlers s1)) \<and>
         pendingFirstClickHandlers s2 =
           (if first_fthrow (pendingFirstClickHandlers s1) = Returned then []
            else pendingFirstClickHandlers s1) \<and>
         ((\<forall>h\<in>set (pendingFirstClickHandlers s1). \<not> fthrows h) \<longrightarrow>
            first_clicks (trace_since s1 s2) = map fid (pendingFirstClickHandlers s1) \<and>
            pendingFirstClickHandlers s2 = []) \<and>
         firstClickHasHappened s3 \<and> first_clicks (trace_since s2 s3) = [] \<and>
         fst (useFirstClick h s3) \<and>
         firstClickHasHappened s4 \<and> first_clicks (trace_since s2 s4) = []"
proof -
  have a: "pendingFirstClickHandlers s1 = pendingFirstClickHandlers s0 @ registered pre"
    "first_clicks (trace_since s0 s1) = []"
    using before_first_click[of pre s0] assms(2,3) by simp_all
  have "isTouching s1 \<longrightarrow> firstClickHasHappened s1"
    using touching_after_latch[OF assms(1), of pre] assms(2) by simp
  with assms(3) have nt: "\<not> isTouching s1" by simp
  note b = first_click_effect[OF assms(3) nt assms(4)]
  have l2: "firstClickHasHappened s2" using b assms(5) by simp
  have b2: "first_clicks (trace_since s1 s2) =
           map fid (through_first fthrows (pendingFirstClickHandlers s1))"
    "pendingFirstClickHandlers s2 =
           (if first_fthrow (pendingFirstClickHandlers s1) = Returned then []
            else pendingFirstClickHandlers s1)"
    using b assms(5) by simp_all
  have b3: "first_clicks (trace_since s1 s2) = map fid (pendingFirstClickHandlers s1) \<and>
            pendingFirstClickHandlers s2 = []"
    if "\<forall>h\<in>set (pendingFirstClickHandlers s1). \<not> fthrows h"
    using b2 that by (simp add: first_fthrow_none through_first_none)
  have c: "firstClickHasHappened s3 \<and> first_clicks (trace_since s2 s3) = []"
    using latched_run[OF l2, of later] assms(6) by simp
  have d: "fst (useFirstClick h s3)" using c by (simp add: useFirstClick_def Let_def)
  have "s4 = run (later @ UseFirstClick h # afterwards) s2"
    using assms(6,7) by (simp add: run_append)
  then have e: "firstClickHasHappened s4 \<and> first_clicks (trace_since s2 s4) = []"
    using latched_run[OF l2, of "later @ UseFirstClick h # afterwards"] by simp
  show ?thesis using a l2 b2 b3 c d e by blast
qed

theorem C4_first_click_latch_witness:
  "pendingFirstClickHandlers
     (run [UseFirstClick (FcHandler 1 False), Raw (MouseMove (MouseEvent (Fin 1) (Fin 1) 0 0)),
           UseFirstClick (FcHandler 2 False), Tick] initial) = [FcHandler 1 False, FcHandler 2 False] \<and>
   first_clicks (trace_since
     (run [UseFirstClick (FcHandler 1 False), Raw (MouseMove (MouseEvent (Fin 1) (Fin 1) 0 0)),
           UseFirstClick (FcHandler 2 False), Tick] initial)
     (snd (handle (MouseDown (MouseEvent (Fin 5) (Fin 5) 0 0))
       (run [UseFirstClick (FcHandler 1 False), Raw (MouseMove (MouseEvent (Fin 1) (Fin 1) 0 0)),
           UseFirstClick (FcHandler 2 False), Tick] initial)))) = [1, 2] \<and>
   pendingFirstClickHandlers
     (snd (handle (MouseDown (MouseEvent (Fin 5) (Fin 5) 0 0))
       (run [UseFirstClick (FcHandler 1 False), Raw (MouseMove (MouseEvent (Fin 1) (Fin 1) 0 0)),
           UseFirstClick (FcHandler 2 False), Tick] initial))) = [] \<and>
   first_clicks (trace_since
     (snd (handle (MouseDown (MouseEvent (Fin 5) (Fin 5) 0 0))
       (run [UseFirstClick (FcHandler 1 False), Raw (MouseMove (MouseEvent (Fin 1) (Fin 1) 0 0)),
           UseFirstClick (FcHandler 2 False), Tick] initial)))
     (run [Raw (MouseDown (MouseEvent (Fin 6) (Fin 6) 0 0)), Tick]
       (snd (useFirstClick (FcHandler 3 False)
         (run [Tick]
           (snd (handle (MouseDown (MouseEvent (Fin 5) (Fin 5) 0 0))
             (run [UseFirstClick (FcHandler 1 False), Raw (MouseMove (MouseEvent (Fin 1) (Fin 1) 0 0)),
                 UseFirstClick (FcHandler 2 False), Tick] initial)))))))) = [] \<and>
   fst (useFirstClick (FcHandler 3 False)
     (run [Tick]
       (snd (handle (MouseDown (MouseEvent (Fin 5) (Fin 5) 0 0))
         (run [UseFirstClick (FcHandler 1 False), Raw (MouseMove (MouseEvent (Fin 1) (Fin 1) 0 0)),
             UseFirstClick (FcHandler 2 False), Tick] initial)))))"
proof -
  define pre where "pre = [UseFirstClick (FcHandler 1 False), Raw (MouseMove (MouseEvent (Fin 1) (Fin 1) 0 0)),
           UseFirstClick (FcHandler 2 False), Tick]"
  define s1 where "s1 = run pre initial"
  define s2 where "s2 = snd (handle (MouseDown (MouseEvent (Fin 5) (Fin 5) 0 0)) s1)"
  define s3 where "s3 = run [Tick] s2"
  define s4 where "s4 = run [Raw (MouseDown (MouseEvent (Fin 6) (Fin 6) 0 0)), Tick]
       (snd (useFirstClick (FcHandler 3 False) s3))"
  have inv: "isTouching initial \<longrightarrow> firstClickHasHappened initial" by (simp add: initial_def)
  have n: "\<not> firstClickHasHappened s1"
    by (simp add: s1_def pre_def initial_def run_defs useFirstClick_def)
  have c: "is_click (MouseDown (MouseEvent (Fin 5) (Fin 5) 0 0))" by simp
  note t = C4_first_click_latch [OF inv s1_def n c s2_def s3_def s4_def]
  have q0: "pendingFirstClickHandlers initial @ registered pre = [FcHandler 1 False, FcHandler 2 False]"
    by (simp add: pre_def initial_def)
  have q: "pendingFirstClickHandlers s1 = [FcHandler 1 False, FcHandler 2 False]"
    using t q0 by simp
  then have "\<forall>h\<in>set (pendingFirstClickHandlers s1). \<not> fthrows h" by simp
  with t have "first_clicks (trace_since s1 s2) = map fid (pendingFirstClickHandlers s1)"
    "pendingFirstClickHandlers s2 = []" "first_clicks (trace_since s2 s4) = []"
    "fst (useFirstClick (FcHandler 3 False) s3)"
    by blast+
  with q show ?thesis unfolding s4_def s3_def s2_def s1_def pre_def by simp
qed

subsection \<open>The coordinate translator\<close>





subsection \<open>Touch events without touch points\<close>

text \<open>
  Claim C7, as stated, fails: a touchstart with no touch points, arriving before the
  first click, sets the latch, calls the queued first-click handler and empties the
  queue. And \<open>handleTouchEnd\<close> reads \<open>changedTouches\<close>: a touchend that carries no
  active touch point (\<open>touches\<close> is empty once the finger is lifted) schedules an up
  dispatch and clears \<open>isTouching\<close>.
\<close>

theorem C7_empty_touch_lists_counterexample:
  "\<not> firstClickHasHappened (initial\<lparr>pendingFirstClickHandlers := [FcHandler 9 False]\<rparr>) \<and>
   firstClickHasHappened
     (snd (handleTouchStart (TouchEvent [] []) (initial\<lparr>pendingFirstClickHandlers := [FcHandler 9 False]\<rparr>))) \<and>
   pendingFirstClickHandlers
     (snd (handleTouchStart (TouchEvent [] []) (initial\<lparr>pendingFirstClickHandlers := [FcHandler 9 False]\<rparr>))) = [] \<and>
   first_clicks (log
     (snd (handleTouchStart (TouchEvent [] []) (initial\<lparr>pendingFirstClickHandlers := [FcHandler 9 False]\<rparr>)))) = [9] \<and>
   pendingUp (snd (handleTouchEnd (TouchEvent [] [Touch (Fin 1) (Fin 2)]) touching)) =
     Some (Closure (UpdArgs (Fin 1) (Fin 2) None (Some 0)) UpCallbacks) \<and>
   \<not> isTouching (snd (handleTouchEnd (TouchEvent [] [Touch (Fin 1) (Fin 2)]) touching)) \<and>
   isTouching touching"
  by (simp add: initial_def touching_def handleTouchStart_eq handleTouchEnd_def firstClick_eq
      schedule_def set_slot_def)

text \<open>
  Claim C7, amended. A touchmove with an empty \<open>touches\<close> list and a touchend with an
  empty \<open>changedTouches\<close> list return normally and change nothing. A touchstart with
  an empty \<open>touches\<close> list returns normally and changes nothing when the component is
  touching or the latch is set; in any case it changes nothing but the latch, the
  first-click queue and the trace (no slot is written, \<open>isTouching\<close> stays), and when
  the component is not touching it does what the first-click block does.
\<close>

theorem C7_empty_touch_lists:
  "(touches ev = [] \<longrightarrow> handleTouchMove ev s = (Returned, s)) \<and>
   (changedTouches ev = [] \<longrightarrow> handleTouchEnd ev s = (Returned, s)) \<and>
   (touches ev = [] \<and> (isTouching s \<or> firstClickHasHappened s) \<longrightarrow>
      handleTouchStart ev s = (Returned, s)) \<and>
   (touches ev = [] \<longrightarrow>
      (snd (handleTouchStart ev s))
        \<lparr>firstClickHasHappened := firstClickHasHappened s,
         pendingFirstClickHandlers := pendingFirstClickHandlers s,
         log := log s\<rparr> = s) \<and>
   (touches ev = [] \<and> \<not> isTouching s \<longrightarrow> handleTouchStart ev s = firstClick s)"
proof -
  have 1: "handleTouchMove ev s = (Returned, s)" if "touches ev = []"
    using that by (simp add: handleTouchMove_def)
  have 2: "handleTouchEnd ev s = (Returned, s)" if "changedTouches ev = []"
    using that by (simp add: handleTouchEnd_def)
  have 5: "handleTouchStart ev s = firstClick s" if "touches ev = []" "\<not> isTouching s"
    using that by (simp add: handleTouchStart_eq)
  have 3: "handleTouchStart ev s = (Returned, s)" if "touches ev = []" "isTouching s \<or> firstClickHasHappened s"
  proof (cases "isTouching s")
    case True
    then show ?thesis by (simp add: handleTouchStart_eq)
  next
    case False
    with that have "firstClickHasHappened s" by simp
    then show ?thesis using 5[OF that(1) False] by (simp add: firstClick_eq)
  qed
  have 4: "(snd (handleTouchStart ev s))
        \<lparr>firstClickHasHappened := firstClickHasHappened s,
         pendingFirstClickHandlers := pendingFirstClickHandlers s,
         log := log s\<rparr> = s" if "touches ev = []"
  proof (cases "isTouching s")
    case True
    then show ?thesis by (simp add: handleTouchStart_eq)
  next
    case False
    show ?thesis unfolding 5[OF that False] by (simp add: firstClick_eq)
  qed
  from 1 2 3 4 5 show ?thesis by blast
qed

theorem C7_empty_touch_lists_witness:
  "handleTouchMove (TouchEvent [] []) watched = (Returned, watched) \<and>
   handleTouchEnd (TouchEvent [] []) touching = (Returned, touching) \<and>
   handleTouchStart (TouchEvent [] []) touching = (Returned, touching) \<and>
   pendingDown (snd (handleTouchStart (TouchEvent [] []) watched)) = None \<and>
   \<not> isTouching (snd (handleTouchStart (TouchEvent [] []) watched))"
proof -
  have t: "isTouching touching" by (simp add: touching_def initial_def)
  have w: "pendingDown watched = None" "\<not> isTouching watched" by (simp_all add: watched_def initial_def)
  have e: "touches (TouchEvent [] []) = []" "changedTouches (TouchEvent [] []) = []" by simp_all
  have "(snd (handleTouchStart (TouchEvent [] []) watched))
        \<lparr>firstClickHasHappened := firstClickHasHappened watched,
         pendingFirstClickHandlers := pendingFirstClickHandlers watched,
         log := log watched\<rparr> = watched"
    using C7_empty_touch_lists [of "TouchEvent [] []" watched] e by blast
  then have "pendingDown ((snd (handleTouchStart (TouchEvent [] []) watched))
        \<lparr>firstClickHasHappened := firstClickHasHappened watched,
         pendingFirstClickHandlers := pendingFirstClickHandlers watched,
         log := log watched\<rparr>) = pendingDown watched"
    "isTouching ((snd (handleTouchStart (TouchEvent [] []) watched))
        \<lparr>firstClickHasHappened := firstClickHasHappened watched,
         pendingFirstClickHandlers := pendingFirstClickHandlers watched,
         log := log watched\<rparr>) = isTouching watched"
    by simp_all
  then have "pendingDown (snd (handleTouchStart (TouchEvent [] []) watched)) = pendingDown watched"
    "isTouching (snd (handleTouchStart (TouchEvent [] []) watched)) = isTouching watched"
    by simp_all
  then show ?thesis
    using C7_empty_touch_lists [of "TouchEvent [] []" watched]
      C7_empty_touch_lists [of "TouchEvent [] []" touching] t w e by simp
qed

end
